theory Spec2Isabelle
  imports Main
begin

section \<open>Pipeline executor: data model\<close>

text \<open>
  A shallow embedding of \<^verbatim>\<open>dbms/src/Processors/Executors/PipelineExecutor.h\<close>.

  Pointers are addresses (natural numbers), \<open>nullptr\<close> is address 0. The
  \<^verbatim>\<open>ExecutionState\<close> objects live in an explicit heap, because the task queue holds raw
  pointers to them and reads \<^verbatim>\<open>state->has_quota\<close> through the pointer. Reading through
  a pointer that points to no live object, and indexing a vector out of range, are
  undefined behaviour in C++; the model makes both an explicit failure value.

  The \<^verbatim>\<open>size_t\<close> counters of the task queue are natural numbers: the decrement of
  the size counter is only reached behind the check that it is not 0, and an increment
  could only wrap after \<open>2 ^ 64\<close> pushes, more pointers than the address space holds.
  The members \<^verbatim>\<open>size_\<close> and \<^verbatim>\<open>quota_\<close> are the fields \<open>size_m\<close> and \<open>quota_m\<close>
  (a field name cannot end in an underscore). Mutexes and condition variables carry
  no data and are left out; the model is sequential.
\<close>

type_synonym addr = nat

definition nullptr :: addr where
  "nullptr = 0"

datatype ErrorCodes = LOGICAL_ERROR

text \<open>The ways a call can fail: an exception of the header, undefined behaviour, and
  the structural error of graph construction. Modelled from the spec: the structural
  error is raised by \<^verbatim>\<open>buildGraph\<close>, which the header only declares.\<close>

datatype failure =
    Exception string ErrorCodes
  | Undefined_Behaviour
  | Structural_Error

text \<open>\<^verbatim>\<open>struct ExecutionState\<close>: the exception slot and the job closure are optional
  identifiers (\<open>None\<close> is the empty \<^verbatim>\<open>exception_ptr\<close>, the empty \<^verbatim>\<open>std::function\<close>).\<close>

record ExecutionState =
  exception :: "nat option"
  job :: "nat option"
  processor :: addr
  processors_id :: nat
  has_quota :: bool
  num_executed_jobs :: nat
  execution_time_ns :: nat
  preparation_time_ns :: nat

text \<open>The default member initialisers of \<^verbatim>\<open>ExecutionState\<close>.\<close>

definition ExecutionState_default :: ExecutionState where
  "ExecutionState_default =
     \<lparr> exception = None, job = None, processor = nullptr, processors_id = 0,
       has_quota = False, num_executed_jobs = 0, execution_time_ns = 0,
       preparation_time_ns = 0 \<rparr>"

text \<open>The heap of execution states: address \<open>p\<close> (from 1) is cell \<open>p - 1\<close>.\<close>

type_synonym heap = "ExecutionState list"

definition deref :: "heap \<Rightarrow> addr \<Rightarrow> ExecutionState option" where
  "deref h p = (if p = nullptr \<or> length h < p then None else Some (h ! (p - 1)))"

definition store :: "heap \<Rightarrow> addr \<Rightarrow> ExecutionState \<Rightarrow> heap" where
  "store h p v = h[p - 1 := v]"

text \<open>\<^verbatim>\<open>std::make_unique<ExecutionState>()\<close>: a fresh cell holding the defaults.\<close>

definition make_unique :: "heap \<Rightarrow> addr \<times> heap" where
  "make_unique h = (Suc (length h), h @ [ExecutionState_default])"

section \<open>TaskQueue\<close>

text \<open>\<^verbatim>\<open>std::vector<std::queue<ExecutionState *>>\<close> is a list of lists, the front of a
  queue being the head of its list.\<close>

record TaskQueue =
  queues :: "addr list list"
  size_m :: nat
  quota_m :: nat

text \<open>A freshly constructed \<^verbatim>\<open>TaskQueue\<close>: no queues, both counters 0.\<close>

definition TaskQueue_new :: TaskQueue where
  "TaskQueue_new = \<lparr> queues = [], size_m = 0, quota_m = 0 \<rparr>"

text \<open>\<^verbatim>\<open>std::vector::resize\<close>: keeps the first \<open>n\<close> elements, pads with empty queues.\<close>

definition resize :: "addr list list \<Rightarrow> nat \<Rightarrow> addr list list" where
  "resize qs n = take n qs @ replicate (n - length qs) []"

definition init :: "TaskQueue \<Rightarrow> nat \<Rightarrow> TaskQueue" where
  "init tq num_threads = tq\<lparr> queues := resize (queues tq) num_threads \<rparr>"

text \<open>\<^verbatim>\<open>push\<close>: the task goes to the back of the queue of \<open>thread_num\<close>.\<close>

definition push :: "heap \<Rightarrow> TaskQueue \<Rightarrow> addr \<Rightarrow> nat \<Rightarrow> failure + TaskQueue" where
  "push h tq state thread_num =
     (if length (queues tq) \<le> thread_num then Inl Undefined_Behaviour
      else
        let tq1 = tq\<lparr> queues := (queues tq)[thread_num := queues tq ! thread_num @ [state]] \<rparr>;
            tq2 = tq1\<lparr> size_m := size_m tq1 + 1 \<rparr>
        in (case deref h state of
              None \<Rightarrow> Inl Undefined_Behaviour
            | Some st \<Rightarrow>
                Inr (if has_quota st then tq2\<lparr> quota_m := quota_m tq2 + 1 \<rparr> else tq2)))"

text \<open>The \<^verbatim>\<open>for\<close> loop of \<^verbatim>\<open>getAnyThreadWithTasks\<close>; the second argument is the number of
  iterations still to run.\<close>

fun scan :: "addr list list \<Rightarrow> nat \<Rightarrow> nat \<Rightarrow> failure + nat" where
  "scan qs 0 from_thread = Inl (Exception ''TaskQueue is empty.'' LOGICAL_ERROR)"
| "scan qs (Suc k) from_thread =
     (if length qs \<le> from_thread then Inl Undefined_Behaviour
      else if qs ! from_thread \<noteq> [] then Inr from_thread
      else scan qs k (if length qs \<le> from_thread + 1 then 0 else from_thread + 1))"

definition getAnyThreadWithTasks :: "TaskQueue \<Rightarrow> nat \<Rightarrow> failure + nat" where
  "getAnyThreadWithTasks tq from_thread =
     (if size_m tq = 0 then Inl (Exception ''TaskQueue is empty.'' LOGICAL_ERROR)
      else scan (queues tq) (length (queues tq)) from_thread)"

text \<open>\<^verbatim>\<open>pop\<close>, as the header has it: \<^verbatim>\<open>front()\<close> on an empty queue is undefined
  behaviour, the size counter is decremented, and for a task with \<^verbatim>\<open>has_quota\<close> the
  statement is \<^verbatim>\<open>++quota_\<close>.\<close>

definition pop :: "heap \<Rightarrow> TaskQueue \<Rightarrow> nat \<Rightarrow> failure + (addr \<times> TaskQueue)" where
  "pop h tq thread_num =
     (case getAnyThreadWithTasks tq thread_num of
        Inl e \<Rightarrow> Inl e
      | Inr thread_with_tasks \<Rightarrow>
          if length (queues tq) \<le> thread_with_tasks then Inl Undefined_Behaviour
          else
            (case queues tq ! thread_with_tasks of
               [] \<Rightarrow> Inl Undefined_Behaviour
             | state # rest \<Rightarrow>
                 let tq1 = tq\<lparr> queues := (queues tq)[thread_with_tasks := rest] \<rparr>;
                     tq2 = tq1\<lparr> size_m := size_m tq1 - 1 \<rparr>
                 in (case deref h state of
                       None \<Rightarrow> Inl Undefined_Behaviour
                     | Some st \<Rightarrow>
                         Inr (state,
                              if has_quota st then tq2\<lparr> quota_m := quota_m tq2 + 1 \<rparr>
                              else tq2))))"

text \<open>The accessors \<^verbatim>\<open>size()\<close>, \<^verbatim>\<open>empty()\<close> and \<^verbatim>\<open>quota()\<close>; \<open>size\<close> and \<open>empty\<close>
  are names of HOL, hence the suffix.\<close>

definition size_tq :: "TaskQueue \<Rightarrow> nat" where
  "size_tq tq = size_m tq"

definition empty_tq :: "TaskQueue \<Rightarrow> bool" where
  "empty_tq tq = (size_m tq = 0)"

definition quota :: "TaskQueue \<Rightarrow> nat" where
  "quota tq = quota_m tq"

subsection \<open>Observing a queue\<close>

text \<open>The number of tasks held by the per-thread queues, and how many of them point to
  an execution state whose \<^verbatim>\<open>has_quota\<close> flag is set.\<close>

definition total_tasks :: "TaskQueue \<Rightarrow> nat" where
  "total_tasks tq = sum_list (map length (queues tq))"

definition quota_bearing :: "heap \<Rightarrow> addr \<Rightarrow> bool" where
  "quota_bearing h p = (case deref h p of None \<Rightarrow> False | Some st \<Rightarrow> has_quota st)"

definition queued_quota :: "heap \<Rightarrow> TaskQueue \<Rightarrow> nat" where
  "queued_quota h tq = length (filter (quota_bearing h) (concat (queues tq)))"

text \<open>Every queued pointer points to a live execution state.\<close>

definition queued_valid :: "heap \<Rightarrow> TaskQueue \<Rightarrow> bool" where
  "queued_valid h tq = list_all (list_all (\<lambda>p. deref h p \<noteq> None)) (queues tq)"

text \<open>Sequences of calls. A \<open>Pop\<close> event records the task returned and the queue it
  was taken from (the result of \<^verbatim>\<open>getAnyThreadWithTasks\<close>); a sequence stops at the
  first failing call, as the exception would.\<close>

datatype op = Push addr nat | Pop nat

datatype event = Pushed addr nat | Popped addr nat

fun exec :: "heap \<Rightarrow> TaskQueue \<Rightarrow> op \<Rightarrow> failure + (event \<times> TaskQueue)" where
  "exec h tq (Push state thread_num) =
     (case push h tq state thread_num of
        Inl e \<Rightarrow> Inl e
      | Inr tq' \<Rightarrow> Inr (Pushed state thread_num, tq'))"
| "exec h tq (Pop thread_num) =
     (case getAnyThreadWithTasks tq thread_num of
        Inl e \<Rightarrow> Inl e
      | Inr k \<Rightarrow>
          (case pop h tq thread_num of
             Inl e \<Rightarrow> Inl e
           | Inr (state, tq') \<Rightarrow> Inr (Popped state k, tq')))"

fun run :: "heap \<Rightarrow> TaskQueue \<Rightarrow> op list \<Rightarrow> failure + (event list \<times> TaskQueue)" where
  "run h tq [] = Inr ([], tq)"
| "run h tq (x # xs) =
     (case exec h tq x of
        Inl e \<Rightarrow> Inl e
      | Inr (ev, tq') \<Rightarrow>
          (case run h tq' xs of
             Inl e \<Rightarrow> Inl e
           | Inr (evs, tq'') \<Rightarrow> Inr (ev # evs, tq'')))"

text \<open>The tasks pushed to queue \<open>k\<close> and the tasks taken from queue \<open>k\<close>, in order.\<close>

fun pushed_to :: "nat \<Rightarrow> event list \<Rightarrow> addr list" where
  "pushed_to k [] = []"
| "pushed_to k (Pushed p t # evs) = (if t = k then p # pushed_to k evs else pushed_to k evs)"
| "pushed_to k (Popped p t # evs) = pushed_to k evs"

fun popped_from :: "nat \<Rightarrow> event list \<Rightarrow> addr list" where
  "popped_from k [] = []"
| "popped_from k (Pushed p t # evs) = popped_from k evs"
| "popped_from k (Popped p t # evs) = (if t = k then p # popped_from k evs else popped_from k evs)"

text \<open>A heap with two execution states: the one at address 1 bears quota, the one at
  address 2 does not.\<close>

definition sample_heap :: heap where
  "sample_heap = [ExecutionState_default\<lparr> has_quota := True \<rparr>,
                  ExecutionState_default\<lparr> processors_id := 1 \<rparr>]"

section \<open>Edges and nodes\<close>

text \<open>\<^verbatim>\<open>Port::UpdateInfo\<close> is declared in \<^verbatim>\<open>Port.h\<close>; the record has the two members the
  \<^verbatim>\<open>Edge\<close> constructor assigns (\<^verbatim>\<open>id\<close> is the field \<open>id_info\<close>).\<close>

record UpdateInfo =
  update_list :: addr
  id_info :: addr

record Edge =
  to :: nat
  backward :: bool
  input_port_number :: nat
  output_port_number :: nat
  update_info :: UpdateInfo

text \<open>The constructor of \<^verbatim>\<open>Edge\<close>; \<open>this\<close> is the address the edge is constructed at.\<close>

definition Edge_ctor :: "addr \<Rightarrow> nat \<Rightarrow> bool \<Rightarrow> nat \<Rightarrow> nat \<Rightarrow> addr \<Rightarrow> Edge" where
  "Edge_ctor this to' backward' input_port_number' output_port_number' update_list' =
     \<lparr> to = to', backward = backward',
       input_port_number = input_port_number', output_port_number = output_port_number',
       update_info = \<lparr> update_list = update_list', id_info = this \<rparr> \<rparr>"

datatype ExecStatus = Idle | Preparing | Executing | Finished | Async

text \<open>Modelled from the spec: \<^verbatim>\<open>IProcessor::Status\<close> (declared in \<^verbatim>\<open>IProcessor.h\<close>), the
  results of \<^verbatim>\<open>prepare\<close>: needs more input, output full, ready to run, finished, needs
  asynchronous work, wants to expand the graph.\<close>

datatype Status = NeedData | PortFull | Ready | Status_Finished | Status_Async | ExpandPipeline

text \<open>Modelled from the spec: the part of \<^verbatim>\<open>IProcessor\<close> (declared in \<^verbatim>\<open>IProcessor.h\<close>)
  that the executor consumes: the resource-quota flag, and the input and output ports, each
  with its connected peer (the peer processor and the number of the peer's port) if it
  has one.\<close>

record IProcessor =
  hasQuota :: bool
  inputs :: "(addr \<times> nat) option list"
  outputs :: "(addr \<times> nat) option list"

text \<open>\<^verbatim>\<open>struct Node\<close>. The member \<^verbatim>\<open>processor\<close> is the field \<open>processor_node\<close>;
  \<^verbatim>\<open>execution_state\<close>, a \<^verbatim>\<open>unique_ptr\<close>, is the address it owns.\<close>

record Node =
  processor_node :: addr
  directEdges :: "Edge list"
  backEdges :: "Edge list"
  status :: ExecStatus
  post_updated_input_ports :: "addr list"
  post_updated_output_ports :: "addr list"
  last_processor_status :: Status
  execution_state :: addr
  updated_input_ports :: "nat list"
  updated_output_ports :: "nat list"

text \<open>An assignment through a pointer to an execution state.\<close>

definition assign :: "heap \<Rightarrow> addr \<Rightarrow> (ExecutionState \<Rightarrow> ExecutionState) \<Rightarrow> failure + heap" where
  "assign h p f =
     (case deref h p of None \<Rightarrow> Inl Undefined_Behaviour | Some st \<Rightarrow> Inr (store h p (f st)))"

text \<open>The virtual call \<^verbatim>\<open>processor->hasQuota()\<close>. The processors are a store from
  addresses to processor objects. The call reads the processor object and is an effect
  on it, so every call is recorded: the function takes the log of the calls made so far
  and returns the answer with the log extended by this call. Calling through a pointer to
  no processor is undefined behaviour.\<close>

definition call_hasQuota ::
    "(addr \<rightharpoonup> IProcessor) \<Rightarrow> addr list \<Rightarrow> addr \<Rightarrow> failure + (bool \<times> addr list)" where
  "call_hasQuota procs calls p =
     (case procs p of
        None \<Rightarrow> Inl Undefined_Behaviour
      | Some ip \<Rightarrow> Inr (hasQuota ip, calls @ [p]))"

text \<open>\<^verbatim>\<open>Node(IProcessor * processor_, UInt64 processor_id)\<close> (the parameter is
  \<open>processor'\<close>). The result is the node, the heap with the new execution state, and the
  log of the \<^verbatim>\<open>hasQuota\<close> calls the constructor made, starting from the empty log.\<close>

definition Node_ctor ::
    "(addr \<rightharpoonup> IProcessor) \<Rightarrow> heap \<Rightarrow> addr \<Rightarrow> nat \<Rightarrow> failure + (Node \<times> heap \<times> addr list)" where
  "Node_ctor procs h processor' processor_id =
     (let (es, h0) = make_unique h in
      case assign h0 es (\<lambda>st. st\<lparr> processor := processor' \<rparr>) of
        Inl e \<Rightarrow> Inl e
      | Inr h1 \<Rightarrow>
     (case assign h1 es (\<lambda>st. st\<lparr> processors_id := processor_id \<rparr>) of
        Inl e \<Rightarrow> Inl e
      | Inr h2 \<Rightarrow>
     (case call_hasQuota procs [] processor' of
        Inl e \<Rightarrow> Inl e
      | Inr (answer, calls) \<Rightarrow>
     (case assign h2 es (\<lambda>st. st\<lparr> has_quota := answer \<rparr>) of
        Inl e \<Rightarrow> Inl e
      | Inr h3 \<Rightarrow>
          Inr (\<lparr> processor_node = processor', directEdges = [], backEdges = [],
                 status = Idle,
                 post_updated_input_ports = [], post_updated_output_ports = [],
                 last_processor_status = NeedData, execution_state = es,
                 updated_input_ports = [], updated_output_ports = [] \<rparr>,
               h3, calls)))))"

text \<open>\<^verbatim>\<open>Node(Node && other)\<close>: the new node and what is left of \<open>other\<close>. The initialiser
  list names \<^verbatim>\<open>processor\<close>, \<^verbatim>\<open>status\<close> and \<^verbatim>\<open>execution_state\<close>; every other member
  gets its default.\<close>

definition Node_move :: "Node \<Rightarrow> Node \<times> Node" where
  "Node_move other =
     (\<lparr> processor_node = processor_node other, directEdges = [], backEdges = [],
        status = status other,
        post_updated_input_ports = [], post_updated_output_ports = [],
        last_processor_status = NeedData, execution_state = execution_state other,
        updated_input_ports = [], updated_output_ports = [] \<rparr>,
      other\<lparr> execution_state := nullptr \<rparr>)"

text \<open>\<^verbatim>\<open>using Nodes = std::vector<Node>\<close>: the elements and the capacity. When an
  element is added to a full vector, the vector takes new storage and move-constructs
  every element there (the move constructor is \<^verbatim>\<open>noexcept\<close>); below capacity the
  elements stay where they are. The new capacity is the doubled one.\<close>

record Nodes =
  elems :: "Node list"
  capacity :: nat

definition reallocate :: "Node list \<Rightarrow> Node list" where
  "reallocate ns = map (\<lambda>n. fst (Node_move n)) ns"

definition emplace_back :: "Nodes \<Rightarrow> Node \<Rightarrow> Nodes" where
  "emplace_back g n =
     (if length (elems g) < capacity g then g\<lparr> elems := elems g @ [n] \<rparr>
      else \<lparr> elems = reallocate (elems g) @ [n], capacity = max 1 (2 * capacity g) \<rparr>)"

text \<open>A node with one forward edge and one pending port, and a second node.\<close>

definition sample_node :: Node where
  "sample_node =
     \<lparr> processor_node = 1, directEdges = [Edge_ctor 7 1 False 0 0 8], backEdges = [],
       status = Preparing,
       post_updated_input_ports = [], post_updated_output_ports = [9],
       last_processor_status = PortFull, execution_state = 1,
       updated_input_ports = [], updated_output_ports = [0] \<rparr>"

definition other_node :: Node where
  "other_node =
     \<lparr> processor_node = 2, directEdges = [], backEdges = [],
       status = Idle,
       post_updated_input_ports = [], post_updated_output_ports = [],
       last_processor_status = NeedData, execution_state = 2,
       updated_input_ports = [], updated_output_ports = [] \<rparr>"

section \<open>The executor\<close>

record ExpandPipelineTask =
  node_to_expand :: addr
  stack :: addr
  num_waiting_processing_threads :: nat

record ExecutorContext =
  task_list :: "ExpandPipelineTask list"
  wake_flag :: bool

text \<open>The data members of \<^verbatim>\<open>class PipelineExecutor\<close>. Modelled from the spec:
  \<^verbatim>\<open>ThreadsQueue\<close> (declared in \<^verbatim>\<open>ThreadsQueue.h\<close>) is the registry of idle worker
  threads, here the list of the numbers of the parked threads.\<close>

record PipelineExecutor =
  processors :: "addr list"
  graph :: Nodes
  task_queue :: TaskQueue
  threads_queue :: "nat list"
  cancelled :: bool
  finished :: bool
  num_processing_executors :: nat
  expand_pipeline_task :: addr
  executor_contexts :: "ExecutorContext list"
  processors_map :: "addr \<rightharpoonup> nat"

subsection \<open>Graph construction\<close>

text \<open>Modelled from the spec: \<^verbatim>\<open>buildGraph\<close>, \<^verbatim>\<open>addEdges\<close> and the constructor of
  \<^verbatim>\<open>PipelineExecutor\<close> are declared in the header and defined in
  \<^verbatim>\<open>PipelineExecutor.cpp\<close>, which is not among the sources. The spec: for every
  processor, one node is created and indexed by processor identity; for every port of
  every processor, the connected peer is resolved and an edge is created; construction
  fails with a structural error if a port has no connected peer, or if a peer is not
  present in the supplied processor set.

  \<open>place node backward' port\<close> is the pair of addresses an edge needs: where the edge
  itself is stored, and where the node's list of updated ports is.\<close>

text \<open>Modelled from the spec: resolving the connected peer of a port (part of the missing
  \<^verbatim>\<open>addEdges\<close>). It fails if the port has no connected peer, or if the peer is not
  indexed, that is, not present in the supplied processor set.\<close>

definition resolve :: "(addr \<rightharpoonup> nat) \<Rightarrow> (addr \<times> nat) option \<Rightarrow> failure + (nat \<times> nat)" where
  "resolve pmap port =
     (case port of
        None \<Rightarrow> Inl Structural_Error
      | Some (peer, peer_port) \<Rightarrow>
          (case pmap peer of
             None \<Rightarrow> Inl Structural_Error
           | Some to' \<Rightarrow> Inr (to', peer_port)))"

text \<open>Modelled from the spec: the edges for the ports of one direction of one processor
  (part of the missing \<^verbatim>\<open>addEdges\<close>), numbered from \<open>j\<close>. An input port gives a
  backward edge, an output port a forward edge.\<close>

fun port_edges ::
    "(nat \<Rightarrow> addr \<times> addr) \<Rightarrow> (addr \<rightharpoonup> nat) \<Rightarrow> bool \<Rightarrow> nat \<Rightarrow> (addr \<times> nat) option list \<Rightarrow>
     failure + Edge list" where
  "port_edges pl pmap backward' j [] = Inr []"
| "port_edges pl pmap backward' j (port # ports) =
     (case resolve pmap port of
        Inl e \<Rightarrow> Inl e
      | Inr (to', peer_port) \<Rightarrow>
          (case port_edges pl pmap backward' (Suc j) ports of
             Inl e \<Rightarrow> Inl e
           | Inr es \<Rightarrow>
               Inr (Edge_ctor (fst (pl j)) to' backward'
                      (if backward' then j else peer_port)
                      (if backward' then peer_port else j)
                      (snd (pl j)) # es)))"

text \<open>Modelled from the spec: the missing \<^verbatim>\<open>addEdges\<close> for one node, creating the
  edges of every port of the node's processor.\<close>

definition node_edges ::
    "(nat \<Rightarrow> bool \<Rightarrow> nat \<Rightarrow> addr \<times> addr) \<Rightarrow> (addr \<rightharpoonup> IProcessor) \<Rightarrow> (addr \<rightharpoonup> nat) \<Rightarrow>
     Node list \<Rightarrow> nat \<Rightarrow> failure + Node list" where
  "node_edges place procs pmap nodes node =
     (if length nodes \<le> node then Inl Undefined_Behaviour
      else
        (case procs (processor_node (nodes ! node)) of
           None \<Rightarrow> Inl Undefined_Behaviour
         | Some ip \<Rightarrow>
             (case port_edges (place node True) pmap True 0 (inputs ip) of
                Inl e \<Rightarrow> Inl e
              | Inr bs \<Rightarrow>
                  (case port_edges (place node False) pmap False 0 (outputs ip) of
                     Inl e \<Rightarrow> Inl e
                   | Inr ds \<Rightarrow>
                       Inr (nodes[node := (nodes ! node)
                              \<lparr> directEdges := directEdges (nodes ! node) @ ds,
                                backEdges := backEdges (nodes ! node) @ bs \<rparr>])))))"

text \<open>Modelled from the spec: the loop of the missing \<^verbatim>\<open>buildGraph\<close> that creates the
  edges of every node.\<close>

fun all_edges ::
    "(nat \<Rightarrow> bool \<Rightarrow> nat \<Rightarrow> addr \<times> addr) \<Rightarrow> (addr \<rightharpoonup> IProcessor) \<Rightarrow> (addr \<rightharpoonup> nat) \<Rightarrow>
     Node list \<Rightarrow> nat list \<Rightarrow> failure + Node list" where
  "all_edges place procs pmap nodes [] = Inr nodes"
| "all_edges place procs pmap nodes (node # rest) =
     (case node_edges place procs pmap nodes node of
        Inl e \<Rightarrow> Inl e
      | Inr nodes' \<Rightarrow> all_edges place procs pmap nodes' rest)"

text \<open>Modelled from the spec: the loop of the missing \<^verbatim>\<open>buildGraph\<close> that creates one
  node per processor and indexes it by processor identity.\<close>

fun create_nodes ::
    "(addr \<rightharpoonup> IProcessor) \<Rightarrow> heap \<Rightarrow> Nodes \<Rightarrow> (addr \<rightharpoonup> nat) \<Rightarrow> addr list \<Rightarrow>
     failure + (Nodes \<times> (addr \<rightharpoonup> nat) \<times> heap)" where
  "create_nodes procs h g pmap [] = Inr (g, pmap, h)"
| "create_nodes procs h g pmap (p # ps) =
     (case Node_ctor procs h p (length (elems g)) of
        Inl e \<Rightarrow> Inl e
      | Inr (n, h', calls) \<Rightarrow>
          create_nodes procs h' (emplace_back g n) (pmap(p \<mapsto> length (elems g))) ps)"

text \<open>Modelled from the spec: the missing \<^verbatim>\<open>buildGraph\<close>: the nodes first, then the
  edges.\<close>

definition buildGraph ::
    "(nat \<Rightarrow> bool \<Rightarrow> nat \<Rightarrow> addr \<times> addr) \<Rightarrow> (addr \<rightharpoonup> IProcessor) \<Rightarrow> heap \<Rightarrow> addr list \<Rightarrow>
     failure + (Nodes \<times> (addr \<rightharpoonup> nat) \<times> heap)" where
  "buildGraph place procs h ps =
     (case create_nodes procs h \<lparr> elems = [], capacity = 0 \<rparr> Map.empty ps of
        Inl e \<Rightarrow> Inl e
      | Inr (g, pmap, h') \<Rightarrow>
          (case all_edges place procs pmap (elems g) [0..<length (elems g)] of
             Inl e \<Rightarrow> Inl e
           | Inr nodes \<Rightarrow> Inr (g\<lparr> elems := nodes \<rparr>, pmap, h')))"

text \<open>Modelled from the spec: the missing constructor of \<^verbatim>\<open>PipelineExecutor\<close>. It builds
  the graph and spawns no thread; the worker threads, each with its context, are created
  by \<^verbatim>\<open>execute\<close>.\<close>

definition PipelineExecutor_ctor ::
    "(nat \<Rightarrow> bool \<Rightarrow> nat \<Rightarrow> addr \<times> addr) \<Rightarrow> (addr \<rightharpoonup> IProcessor) \<Rightarrow> heap \<Rightarrow> addr list \<Rightarrow>
     failure + (PipelineExecutor \<times> heap)" where
  "PipelineExecutor_ctor place procs h ps =
     (case buildGraph place procs h ps of
        Inl e \<Rightarrow> Inl e
      | Inr (g, pmap, h') \<Rightarrow>
          Inr (\<lparr> processors = ps, graph = g, task_queue = TaskQueue_new,
                 threads_queue = [], cancelled = False, finished = False,
                 num_processing_executors = 0, expand_pipeline_task = nullptr,
                 executor_contexts = [], processors_map = pmap \<rparr>, h'))"

text \<open>The claim's words: a port is connected within the set when it has a peer and the
  peer is one of the supplied processors; the set is fully connected when this holds of
  every port of every processor of the set.\<close>

definition port_connected :: "addr list \<Rightarrow> (addr \<times> nat) option \<Rightarrow> bool" where
  "port_connected ps port = (case port of None \<Rightarrow> False | Some (peer, peer_port) \<Rightarrow> peer \<in> set ps)"

definition fully_connected :: "(addr \<rightharpoonup> IProcessor) \<Rightarrow> addr list \<Rightarrow> bool" where
  "fully_connected procs ps =
     list_all (\<lambda>p. case procs p of
                     None \<Rightarrow> False
                   | Some ip \<Rightarrow> list_all (port_connected ps) (inputs ip) \<and>
                               list_all (port_connected ps) (outputs ip)) ps"

text \<open>What edge creation checks, in terms of the index: the peer of a port is indexed;
  every port of a processor is such.\<close>

definition resolvable :: "(addr \<rightharpoonup> nat) \<Rightarrow> (addr \<times> nat) option \<Rightarrow> bool" where
  "resolvable pmap port = (case port of None \<Rightarrow> False | Some (peer, peer_port) \<Rightarrow> pmap peer \<noteq> None)"

definition node_good :: "(addr \<rightharpoonup> IProcessor) \<Rightarrow> (addr \<rightharpoonup> nat) \<Rightarrow> addr \<Rightarrow> bool" where
  "node_good procs pmap p =
     (case procs p of
        None \<Rightarrow> False
      | Some ip \<Rightarrow> list_all (resolvable pmap) (inputs ip) \<and> list_all (resolvable pmap) (outputs ip))"

text \<open>Two processors connected to each other (a source at address 1, a sink at address
  2), and a processor at address 3 with an input port that has no peer.\<close>

definition sample_procs :: "addr \<rightharpoonup> IProcessor" where
  "sample_procs =
     [1 \<mapsto> \<lparr> hasQuota = True, inputs = [], outputs = [Some (2, 0)] \<rparr>,
      2 \<mapsto> \<lparr> hasQuota = False, inputs = [Some (1, 0)], outputs = [] \<rparr>,
      3 \<mapsto> \<lparr> hasQuota = False, inputs = [None], outputs = [] \<rparr>]"

subsection \<open>Cancellation\<close>

text \<open>Modelled from the spec: waking the parked threads (part of the missing \<^verbatim>\<open>cancel\<close>).
  Waking thread \<open>i\<close> sets the wake flag of its context; the contexts are numbered from
  \<open>i\<close>.\<close>

fun wake_parked :: "nat list \<Rightarrow> nat \<Rightarrow> ExecutorContext list \<Rightarrow> ExecutorContext list" where
  "wake_parked parked i [] = []"
| "wake_parked parked i (c # cs) =
     (if i \<in> set parked then c\<lparr> wake_flag := True \<rparr> else c) # wake_parked parked (Suc i) cs"

text \<open>Modelled from the spec: the missing \<^verbatim>\<open>cancel\<close>, declared in the header and defined
  in \<^verbatim>\<open>PipelineExecutor.cpp\<close>. The spec: \<^verbatim>\<open>cancel()\<close> sets the cancellation flag and
  wakes every parked thread. A woken thread is no longer in the registry of parked
  threads.\<close>

definition cancel :: "PipelineExecutor \<Rightarrow> PipelineExecutor" where
  "cancel ex =
     ex\<lparr> cancelled := True,
         executor_contexts := wake_parked (threads_queue ex) 0 (executor_contexts ex),
         threads_queue := [] \<rparr>"

text \<open>An executor in the middle of a run: three workers, the second and third parked.\<close>

definition sample_executor :: PipelineExecutor where
  "sample_executor =
     \<lparr> processors = [1, 2], graph = \<lparr> elems = [sample_node, other_node], capacity = 2 \<rparr>,
       task_queue = init TaskQueue_new 3, threads_queue = [2, 1],
       cancelled = False, finished = False,
       num_processing_executors = 1, expand_pipeline_task = nullptr,
       executor_contexts =
         [\<lparr> task_list = [], wake_flag = False \<rparr>, \<lparr> task_list = [], wake_flag = False \<rparr>,
          \<lparr> task_list = [], wake_flag = False \<rparr>],
       processors_map = [1 \<mapsto> 0, 2 \<mapsto> 1] \<rparr>"

section \<open>The life of an execution state\<close>

text \<open>Modelled from the spec: the missing \<^verbatim>\<open>addJob\<close>, declared in the header and defined
  in \<^verbatim>\<open>PipelineExecutor.cpp\<close>. The spec: the job closure is rebound each time the node
  is about to run. \<open>j\<close> identifies the new closure.\<close>

definition addJob :: "heap \<Rightarrow> addr \<Rightarrow> nat \<Rightarrow> failure + heap" where
  "addJob h es j = assign h es (\<lambda>st. st\<lparr> job := Some j \<rparr>)"

text \<open>Modelled from the spec: a run of the job closure, which is in the missing worker
  loop. The spec: a thrown fault is captured into the deferred-exception slot of the
  execution state rather than propagated, and the timing counters are recorded. \<open>fault\<close>
  is the fault thrown, if any, and \<open>t\<close> the time the job took.\<close>

definition run_job :: "heap \<Rightarrow> addr \<Rightarrow> nat option \<Rightarrow> nat \<Rightarrow> failure + heap" where
  "run_job h es fault t =
     assign h es
       (\<lambda>st. st\<lparr> exception := (case fault of None \<Rightarrow> exception st | Some f \<Rightarrow> Some f),
                 num_executed_jobs := num_executed_jobs st + 1,
                 execution_time_ns := execution_time_ns st + t \<rparr>)"

text \<open>Modelled from the spec: the profiling counter of the time spent preparing, which
  the missing \<^verbatim>\<open>prepareProcessor\<close> records.\<close>

definition record_preparation :: "heap \<Rightarrow> addr \<Rightarrow> nat \<Rightarrow> failure + heap" where
  "record_preparation h es t =
     assign h es (\<lambda>st. st\<lparr> preparation_time_ns := preparation_time_ns st + t \<rparr>)"

text \<open>What the executor holds of interest here: the processors, the log of the
  \<^verbatim>\<open>hasQuota\<close> calls made so far, the heap of execution states, the graph and the task
  queue.\<close>

record world =
  w_procs :: "addr \<rightharpoonup> IProcessor"
  w_calls :: "addr list"
  w_heap :: heap
  w_graph :: Nodes
  w_queue :: TaskQueue

text \<open>What happens after a node has been created. From the header: a further node is
  constructed in place at the end of the graph (which relocates the existing nodes when
  the vector is full), and tasks are pushed and popped. Modelled from the spec: jobs are
  rebound and run and preparation is timed (the three definitions above). The
  processors are not the executor's: a processor object may change at any time, and with
  it the answer its \<^verbatim>\<open>hasQuota\<close> would give.\<close>

datatype action =
    Create_Node addr
  | Queue_Push addr nat
  | Queue_Pop nat
  | Add_Job addr nat
  | Run_Job addr "nat option" nat
  | Time_Preparation addr nat
  | Processor_Changes addr IProcessor

fun act :: "world \<Rightarrow> action \<Rightarrow> failure + world" where
  "act w (Create_Node p) =
     (case Node_ctor (w_procs w) (w_heap w) p (length (elems (w_graph w))) of
        Inl e \<Rightarrow> Inl e
      | Inr (n, h', calls) \<Rightarrow>
          Inr (w\<lparr> w_calls := w_calls w @ calls, w_heap := h',
                  w_graph := emplace_back (w_graph w) n \<rparr>))"
| "act w (Queue_Push es thread_num) =
     (case push (w_heap w) (w_queue w) es thread_num of
        Inl e \<Rightarrow> Inl e
      | Inr q \<Rightarrow> Inr (w\<lparr> w_queue := q \<rparr>))"
| "act w (Queue_Pop thread_num) =
     (case pop (w_heap w) (w_queue w) thread_num of
        Inl e \<Rightarrow> Inl e
      | Inr (es, q) \<Rightarrow> Inr (w\<lparr> w_queue := q \<rparr>))"
| "act w (Add_Job es j) =
     (case addJob (w_heap w) es j of
        Inl e \<Rightarrow> Inl e
      | Inr h' \<Rightarrow> Inr (w\<lparr> w_heap := h' \<rparr>))"
| "act w (Run_Job es fault t) =
     (case run_job (w_heap w) es fault t of
        Inl e \<Rightarrow> Inl e
      | Inr h' \<Rightarrow> Inr (w\<lparr> w_heap := h' \<rparr>))"
| "act w (Time_Preparation es t) =
     (case record_preparation (w_heap w) es t of
        Inl e \<Rightarrow> Inl e
      | Inr h' \<Rightarrow> Inr (w\<lparr> w_heap := h' \<rparr>))"
| "act w (Processor_Changes p ip) = Inr (w\<lparr> w_procs := (w_procs w)(p \<mapsto> ip) \<rparr>)"

fun acts :: "world \<Rightarrow> action list \<Rightarrow> failure + world" where
  "acts w [] = Inr w"
| "acts w (a # as) = (case act w a of Inl e \<Rightarrow> Inl e | Inr w' \<Rightarrow> acts w' as)"

text \<open>The processors for which a sequence of actions creates a node, in order.\<close>

fun created :: "action list \<Rightarrow> addr list" where
  "created [] = []"
| "created (Create_Node p # as) = p # created as"
| "created (a # as) = created as"

text \<open>The binding of the execution states of a heap is kept in a later heap: every
  execution state is still there, with its processor, node id and quota flag.\<close>

definition bindings_kept :: "heap \<Rightarrow> heap \<Rightarrow> bool" where
  "bindings_kept h h' =
     (length h \<le> length h' \<and>
      (\<forall>i<length h. processor (h' ! i) = processor (h ! i) \<and>
                     processors_id (h' ! i) = processors_id (h ! i) \<and>
                     has_quota (h' ! i) = has_quota (h ! i)))"

text \<open>The nodes of a graph are kept in a later graph: every node is still at its index,
  with its processor and its execution state.\<close>

definition nodes_kept :: "Nodes \<Rightarrow> Nodes \<Rightarrow> bool" where
  "nodes_kept g g' =
     (length (elems g) \<le> length (elems g') \<and>
      (\<forall>i<length (elems g).
         processor_node (elems g' ! i) = processor_node (elems g ! i) \<and>
         execution_state (elems g' ! i) = execution_state (elems g ! i)))"

text \<open>A world in which the node of the processor at address 1 has just been created
  (its execution state is at address 3), and what happens next: the task is queued, the
  processor changes its answer, the job is bound and run with a fault, the task is taken,
  and a node is created for the processor at address 2.\<close>

definition sample_world :: world where
  "sample_world =
     \<lparr> w_procs = sample_procs, w_calls = [1],
       w_heap = sample_heap @ [ExecutionState_default\<lparr> processor := 1, processors_id := 0,
                                  has_quota := hasQuota \<lparr> hasQuota = True, inputs = [], outputs = [Some (2, 0)] \<rparr> \<rparr>],
       w_graph = \<lparr> elems = [], capacity = 0 \<rparr>,
       w_queue = init TaskQueue_new 1 \<rparr>"

definition sample_actions :: "action list" where
  "sample_actions =
     [Queue_Push 3 0,
      Processor_Changes 1 \<lparr> hasQuota = False, inputs = [], outputs = [Some (2, 0)] \<rparr>,
      Add_Job 3 4, Run_Job 3 (Some 5) 10, Queue_Pop 0, Create_Node 2]"

section \<open>Properties of the task queue\<close>

subsection \<open>The scan of \<^verbatim>\<open>getAnyThreadWithTasks\<close>\<close>

lemma scan_Inr_D:
  "scan qs m f = Inr k \<Longrightarrow> k < length qs \<and> qs ! k \<noteq> []"
proof (induction m arbitrary: f)
  case 0
  then show ?case by simp
next
  case (Suc m)
  then show ?case by (simp split: if_splits)
qed

lemma next_thread:
  "f < n \<Longrightarrow> (if n \<le> f + 1 then 0 else f + 1) = Suc f mod n"
  by (cases "Suc f = n") simp_all

lemma shift: "(Suc f mod n + i) mod n = (f + Suc i) mod n"
  by (simp add: mod_simps)

lemma scan_step:
  "f < length qs \<Longrightarrow> qs ! f = [] \<Longrightarrow> scan qs (Suc m) f = scan qs m (Suc f mod length qs)"
  using next_thread [of f "length qs"] by simp

lemma scan_hit:
  "f < length qs \<Longrightarrow> qs ! f \<noteq> [] \<Longrightarrow> scan qs (Suc m) f = Inr f"
  by simp

lemma scan_cyclic:
  "f < length qs \<Longrightarrow> d < m \<Longrightarrow> \<forall>i<d. qs ! ((f + i) mod length qs) = [] \<Longrightarrow>
   qs ! ((f + d) mod length qs) \<noteq> [] \<Longrightarrow> scan qs m f = Inr ((f + d) mod length qs)"
proof (induction m arbitrary: f d)
  case 0
  then show ?case by simp
next
  case (Suc m)
  show ?case
  proof (cases d)
    case 0
    with Suc.prems show ?thesis using scan_hit [of f qs m] by simp
  next
    case (Suc d')
    let ?f' = "Suc f mod length qs"
    have "0 < length qs"
      using Suc.prems(1) by (cases qs) simp_all
    then have lt: "?f' < length qs"
      by (rule mod_less_divisor)
    have here: "qs ! f = []"
      using Suc.prems(1) Suc.prems(3) [rule_format, of 0] Suc by simp
    have e: "(?f' + i) mod length qs = (f + Suc i) mod length qs" for i
      by (rule shift)
    have empties: "\<forall>i<d'. qs ! ((?f' + i) mod length qs) = []"
    proof (intro allI impI)
      fix i assume "i < d'"
      then have "Suc i < d" using Suc by simp
      then have "qs ! ((f + Suc i) mod length qs) = []"
        using Suc.prems(3) by blast
      then show "qs ! ((?f' + i) mod length qs) = []"
        unfolding e .
    qed
    have "qs ! ((f + Suc d') mod length qs) \<noteq> []"
      using Suc.prems(4) unfolding Suc .
    then have hit: "qs ! ((?f' + d') mod length qs) \<noteq> []"
      unfolding e .
    have dm: "d' < m"
      using Suc.prems(2) Suc by simp
    have "scan qs m ?f' = Inr ((?f' + d') mod length qs)"
      by (rule Suc.IH [OF lt dm empties hit])
    then have "scan qs m ?f' = Inr ((f + d) mod length qs)"
      unfolding e Suc .
    then show ?thesis
      using scan_step [OF Suc.prems(1) here, of m] by simp
  qed
qed

lemma cyclic_index:
  assumes "t < n" "k < n"
  shows "(t + (k + n - t) mod n) mod n = (k::nat)"
proof -
  have "(t + (k + n - t) mod n) mod n = (t + (k + n - t)) mod n"
    by (simp add: mod_simps)
  also have "t + (k + n - t) = k + n"
    using assms by simp
  also have "(k + n) mod n = k"
    using assms by simp
  finally show ?thesis .
qed

lemma first_nonempty_exists:
  assumes "t < length qs" "k < length qs" "qs ! k \<noteq> []"
  shows "\<exists>d<length qs. qs ! ((t + d) mod length qs) \<noteq> [] \<and>
           (\<forall>i<d. qs ! ((t + i) mod length qs) = [])"
proof -
  let ?n = "length qs"
  let ?P = "\<lambda>i. qs ! ((t + i) mod ?n) \<noteq> []"
  let ?i0 = "(k + ?n - t) mod ?n"
  have "0 < ?n" using assms(1) by (cases qs) simp_all
  then have i0: "?i0 < ?n" by (rule mod_less_divisor)
  have P0: "?P ?i0"
    using assms(3) cyclic_index [OF assms(1,2)] by simp
  define d where "d = (LEAST i. ?P i)"
  have "?P d" unfolding d_def using P0 by (rule LeastI)
  moreover have "d \<le> ?i0" unfolding d_def using P0 by (rule Least_le)
  moreover have "\<forall>i<d. \<not> ?P i"
    unfolding d_def using not_less_Least by blast
  ultimately show ?thesis using i0 by (intro exI [of _ d]) auto
qed

lemma total_pos_nonempty:
  "0 < sum_list (map length qs) \<Longrightarrow> \<exists>k<length qs. qs ! k \<noteq> []"
proof (induction qs)
  case Nil
  then show ?case by simp
next
  case (Cons q qs)
  show ?case
  proof (cases "q = []")
    case True
    with Cons obtain k where "k < length qs" "qs ! k \<noteq> []" by auto
    then have "Suc k < length (q # qs) \<and> (q # qs) ! Suc k \<noteq> []" by simp
    then show ?thesis by blast
  next
    case False
    then have "0 < length (q # qs) \<and> (q # qs) ! 0 \<noteq> []" by simp
    then show ?thesis by blast
  qed
qed

lemma queued_valid_front:
  assumes "queued_valid h tq" "k < length (queues tq)" "queues tq ! k = p # rest"
  shows "\<exists>st. deref h p = Some st"
proof -
  have "list_all (\<lambda>p. deref h p \<noteq> None) (queues tq ! k)"
    using assms(1,2) by (simp add: queued_valid_def list_all_length)
  then show ?thesis using assms(3) by simp
qed

lemma pop_from:
  assumes "getAnyThreadWithTasks tq t = Inr k" "k < length (queues tq)"
    "queues tq ! k = p # rest" "deref h p = Some st"
  shows "pop h tq t =
     Inr (p, tq\<lparr> queues := (queues tq)[k := rest], size_m := size_m tq - 1,
                   quota_m := (if has_quota st then quota_m tq + 1 else quota_m tq) \<rparr>)"
  using assms by (simp add: pop_def Let_def)

lemma pop_Inr_D:
  assumes "pop h tq t = Inr (p, tq')"
  shows "\<exists>k rest st. getAnyThreadWithTasks tq t = Inr k \<and> k < length (queues tq) \<and>
           queues tq ! k = p # rest \<and> deref h p = Some st \<and> size_m tq \<noteq> 0 \<and>
           tq' = tq\<lparr> queues := (queues tq)[k := rest], size_m := size_m tq - 1,
                   quota_m := (if has_quota st then quota_m tq + 1 else quota_m tq) \<rparr>"
  using assms
  by (auto simp: pop_def Let_def getAnyThreadWithTasks_def
      split: sum.splits if_splits list.splits option.splits)

lemma push_Inr_D:
  assumes "push h tq p t = Inr tq'"
  shows "\<exists>st. t < length (queues tq) \<and> deref h p = Some st \<and>
           tq' = tq\<lparr> queues := (queues tq)[t := queues tq ! t @ [p]], size_m := size_m tq + 1,
                   quota_m := (if has_quota st then quota_m tq + 1 else quota_m tq) \<rparr>"
  using assms
  by (auto simp: push_def Let_def split: if_splits option.splits)

lemma push_ok:
  assumes "t < length (queues tq)" "deref h p = Some st"
  shows "push h tq p t =
     Inr (tq\<lparr> queues := (queues tq)[t := queues tq ! t @ [p]], size_m := size_m tq + 1,
                   quota_m := (if has_quota st then quota_m tq + 1 else quota_m tq) \<rparr>)"
  using assms by (simp add: push_def Let_def)

lemma getAny_cyclic:
  assumes "t < length (queues tq)" "size_m tq \<noteq> 0" "d < length (queues tq)"
    "\<forall>i<d. queues tq ! ((t + i) mod length (queues tq)) = []"
    "queues tq ! ((t + d) mod length (queues tq)) \<noteq> []"
  shows "getAnyThreadWithTasks tq t = Inr ((t + d) mod length (queues tq))"
  using assms scan_cyclic [of t "queues tq" d "length (queues tq)"]
  by (simp add: getAnyThreadWithTasks_def)

lemma pop_scan:
  assumes "thread_num < length (queues tq)" and "size_m tq \<noteq> 0" and "0 < total_tasks tq"
    and "queued_valid h tq"
  shows "(\<exists>d<length (queues tq).
            (\<forall>i<d. queues tq ! ((thread_num + i) mod length (queues tq)) = []) \<and>
            queues tq ! ((thread_num + d) mod length (queues tq)) \<noteq> [] \<and>
            (\<exists>tq'. pop h tq thread_num =
                    Inr (hd (queues tq ! ((thread_num + d) mod length (queues tq))), tq') \<and>
                  queues tq' = (queues tq)[(thread_num + d) mod length (queues tq) :=
                                 tl (queues tq ! ((thread_num + d) mod length (queues tq)))])) \<and>
         (queues tq ! thread_num \<noteq> [] \<longrightarrow>
            (\<exists>tq'. pop h tq thread_num = Inr (hd (queues tq ! thread_num), tq') \<and>
                  queues tq' = (queues tq)[thread_num := tl (queues tq ! thread_num)]))"
proof -
  let ?qs = "queues tq"
  let ?n = "length ?qs"
  note nz = assms(2)
  have found: "\<exists>tq'. pop h tq thread_num = Inr (hd (?qs ! ((thread_num + d) mod ?n)), tq') \<and>
      queues tq' = ?qs[(thread_num + d) mod ?n := tl (?qs ! ((thread_num + d) mod ?n))]"
    if d: "d < ?n" "\<forall>i<d. ?qs ! ((thread_num + i) mod ?n) = []"
      "?qs ! ((thread_num + d) mod ?n) \<noteq> []" for d
  proof -
    let ?k = "(thread_num + d) mod ?n"
    have "0 < ?n"
      using d(1) by (cases ?qs) simp_all
    then have k: "?k < ?n"
      by (rule mod_less_divisor)
    obtain p rest where q: "?qs ! ?k = p # rest"
      using d(3) by (cases "?qs ! ?k") simp_all
    obtain st where st: "deref h p = Some st"
      using queued_valid_front [OF assms(4) k q] by blast
    have "getAnyThreadWithTasks tq thread_num = Inr ?k"
      by (rule getAny_cyclic [OF assms(1) nz d])
    from pop_from [OF this k q st] q show ?thesis
      by simp
  qed
  obtain k where "k < ?n" "?qs ! k \<noteq> []"
    using total_pos_nonempty assms(3) unfolding total_tasks_def by blast
  then obtain d where d: "d < ?n" "?qs ! ((thread_num + d) mod ?n) \<noteq> []"
      "\<forall>i<d. ?qs ! ((thread_num + i) mod ?n) = []"
    using first_nonempty_exists [OF assms(1)] by blast
  have first: "\<exists>d<?n. (\<forall>i<d. ?qs ! ((thread_num + i) mod ?n) = []) \<and>
      ?qs ! ((thread_num + d) mod ?n) \<noteq> [] \<and>
      (\<exists>tq'. pop h tq thread_num = Inr (hd (?qs ! ((thread_num + d) mod ?n)), tq') \<and>
         queues tq' = ?qs[(thread_num + d) mod ?n := tl (?qs ! ((thread_num + d) mod ?n))])"
    using d found [OF d(1) d(3) d(2)] by blast
  have own: "\<exists>tq'. pop h tq thread_num = Inr (hd (?qs ! thread_num), tq') \<and>
      queues tq' = ?qs[thread_num := tl (?qs ! thread_num)]"
    if ne: "?qs ! thread_num \<noteq> []"
  proof -
    have z: "(thread_num + 0) mod ?n = thread_num"
      using assms(1) by simp
    have "0 < ?n"
      using assms(1) by (cases ?qs) simp_all
    moreover have "\<forall>i<0. ?qs ! ((thread_num + i) mod ?n) = []"
      by simp
    moreover have "?qs ! ((thread_num + 0) mod ?n) \<noteq> []"
      using ne unfolding z .
    ultimately show ?thesis
      using found [of 0] unfolding z by blast
  qed
  from first own show ?thesis by blast
qed

text \<open>
  Claim C3. For a task queue holding at least one task, \<^verbatim>\<open>pop(thread_num)\<close> scans the
  per-thread queues from index \<open>thread_num\<close>, wrapping around, and returns and removes the
  front task of the first non-empty queue: there is an offset \<open>d\<close> such that the queues at
  the offsets before \<open>d\<close> are empty, the queue at offset \<open>d\<close> is not, and \<open>pop\<close> returns the
  head of that queue and leaves its tail. In particular, if the queue of \<open>thread_num\<close>
  itself is non-empty, its own front task is returned.
\<close>

theorem pop_round_robin:
  assumes "thread_num < length (queues tq)" and "0 < size_tq tq" and "0 < total_tasks tq"
    and "queued_valid h tq"
  shows "(\<exists>d<length (queues tq).
            (\<forall>i<d. queues tq ! ((thread_num + i) mod length (queues tq)) = []) \<and>
            queues tq ! ((thread_num + d) mod length (queues tq)) \<noteq> [] \<and>
            (\<exists>tq'. pop h tq thread_num =
                    Inr (hd (queues tq ! ((thread_num + d) mod length (queues tq))), tq') \<and>
                  queues tq' = (queues tq)[(thread_num + d) mod length (queues tq) :=
                                 tl (queues tq ! ((thread_num + d) mod length (queues tq)))])) \<and>
         (queues tq ! thread_num \<noteq> [] \<longrightarrow>
            (\<exists>tq'. pop h tq thread_num = Inr (hd (queues tq ! thread_num), tq') \<and>
                  queues tq' = (queues tq)[thread_num := tl (queues tq ! thread_num)]))"
proof -
  have "size_m tq \<noteq> 0"
    using assms(2) by (simp add: size_tq_def)
  with assms(1) show ?thesis
    using assms(3,4) by (rule pop_scan)
qed

text \<open>Thread 1 of three has no task of its own and takes the task of thread 2.\<close>

theorem pop_round_robin_witness:
  "\<exists>tq'. pop sample_heap \<lparr> queues = [[], [], [1]], size_m = 1, quota_m = 1 \<rparr> 1 = Inr (1, tq') \<and>
         queues tq' = [[], [], []]"
proof -
  let ?tq = "\<lparr> queues = [[], [], [1]], size_m = 1, quota_m = 1 \<rparr>"
  let ?qs = "queues ?tq"
  have a: "1 < length ?qs" "0 < size_tq ?tq" "0 < total_tasks ?tq"
      "queued_valid sample_heap ?tq"
    by (simp_all add: size_tq_def total_tasks_def queued_valid_def sample_heap_def deref_def
        nullptr_def)
  from pop_round_robin [OF a, THEN conjunct1] obtain d tq' where d: "d < length ?qs"
      "?qs ! ((1 + d) mod length ?qs) \<noteq> []"
      "pop sample_heap ?tq 1 = Inr (hd (?qs ! ((1 + d) mod length ?qs)), tq')"
      "queues tq' = ?qs[(1 + d) mod length ?qs := tl (?qs ! ((1 + d) mod length ?qs))]"
    by blast
  from d(1) have "d = 0 \<or> d = 1 \<or> d = 2"
    by auto
  with d(2) have "d = 1"
    by auto
  with d(3,4) show ?thesis
    by simp
qed

lemma sum_length_append:
  "t < length qs \<Longrightarrow>
   sum_list (map length (qs[t := qs ! t @ [p]])) = Suc (sum_list (map length qs))"
proof (induction qs arbitrary: t)
  case Nil
  then show ?case by simp
next
  case (Cons q qs)
  then show ?case by (cases t) simp_all
qed

lemma sum_length_remove:
  "k < length qs \<Longrightarrow> qs ! k = p # rest \<Longrightarrow>
   Suc (sum_list (map length (qs[k := rest]))) = sum_list (map length qs)"
proof (induction qs arbitrary: k)
  case Nil
  then show ?case by simp
next
  case (Cons q qs)
  then show ?case by (cases k) simp_all
qed

text \<open>
  Claim C4. \<^verbatim>\<open>pop\<close> called while the size is zero raises the logical error; when the
  size counter agrees with the queue contents (and the caller's index is one of the
  threads, the queued pointers live), \<open>pop\<close> fails if and only if the size is zero, and
  with a size greater than zero it returns a task: the task returned is the front of one
  of the queues, it is removed from that queue, and the size and the number of queued
  tasks go down by one.
\<close>

theorem pop_logical_error_iff:
  "(size_m tq = 0 \<longrightarrow>
      pop h tq thread_num = Inl (Exception ''TaskQueue is empty.'' LOGICAL_ERROR)) \<and>
   (size_m tq = total_tasks tq \<and> thread_num < length (queues tq) \<and> queued_valid h tq \<longrightarrow>
      ((\<exists>e. pop h tq thread_num = Inl e) \<longleftrightarrow> size_m tq = 0) \<and>
      (0 < size_m tq \<longrightarrow>
         (\<exists>state tq' k rest. pop h tq thread_num = Inr (state, tq') \<and>
            k < length (queues tq) \<and> queues tq ! k = state # rest \<and>
            queues tq' = (queues tq)[k := rest] \<and>
            size_m tq' = size_m tq - 1 \<and> total_tasks tq' = total_tasks tq - 1)))"
proof -
  have empty: "pop h tq thread_num = Inl (Exception ''TaskQueue is empty.'' LOGICAL_ERROR)"
    if "size_m tq = 0"
    using that by (simp add: pop_def getAnyThreadWithTasks_def)
  have returns: "\<exists>state tq' k rest. pop h tq thread_num = Inr (state, tq') \<and>
      k < length (queues tq) \<and> queues tq ! k = state # rest \<and>
      queues tq' = (queues tq)[k := rest] \<and>
      size_m tq' = size_m tq - 1 \<and> total_tasks tq' = total_tasks tq - 1"
    if "size_m tq = total_tasks tq" "thread_num < length (queues tq)" "queued_valid h tq"
      "0 < size_m tq"
  proof -
    have "size_m tq \<noteq> 0" "0 < total_tasks tq"
      using that(1,4) by simp_all
    from pop_scan [OF that(2) this that(3)] obtain state tq' where
        r: "pop h tq thread_num = Inr (state, tq')"
      by blast
    from pop_Inr_D [OF r] obtain k rest and st :: ExecutionState where
        k: "k < length (queues tq)" "queues tq ! k = state # rest"
        and tq': "tq' = tq\<lparr> queues := (queues tq)[k := rest], size_m := size_m tq - 1,
               quota_m := (if has_quota st then quota_m tq + 1 else quota_m tq) \<rparr>"
      by blast
    from tq' have q: "queues tq' = (queues tq)[k := rest]" "size_m tq' = size_m tq - 1"
      by simp_all
    from sum_length_remove [OF k] q(1) have "total_tasks tq' = total_tasks tq - 1"
      by (simp add: total_tasks_def)
    with r k q show ?thesis
      by blast
  qed
  show ?thesis
    using empty returns by (cases "size_m tq = 0") auto
qed

text \<open>An empty queue of two threads raises; a queue with one task returns it and is
  empty afterwards.\<close>

theorem pop_logical_error_iff_witness:
  "pop sample_heap (init TaskQueue_new 2) 0 = Inl (Exception ''TaskQueue is empty.'' LOGICAL_ERROR) \<and>
   (\<exists>tq'. pop sample_heap \<lparr> queues = [[], [1]], size_m = 1, quota_m = 1 \<rparr> 0 = Inr (1, tq') \<and>
      queues tq' = [[], []] \<and> size_m tq' = 0)"
proof -
  let ?tq = "\<lparr> queues = [[], [1]], size_m = 1, quota_m = 1 \<rparr>"
  have "size_m (init TaskQueue_new 2) = 0"
    by (simp add: init_def TaskQueue_new_def)
  then have one: "pop sample_heap (init TaskQueue_new 2) 0 =
      Inl (Exception ''TaskQueue is empty.'' LOGICAL_ERROR)"
    using pop_logical_error_iff [of "init TaskQueue_new 2" sample_heap 0] by blast
  have "size_m ?tq = total_tasks ?tq \<and> 0 < length (queues ?tq) \<and> queued_valid sample_heap ?tq \<and>
      0 < size_m ?tq"
    by (simp add: total_tasks_def queued_valid_def sample_heap_def deref_def nullptr_def)
  then obtain state tq' k rest where r: "pop sample_heap ?tq 0 = Inr (state, tq')"
      "k < length (queues ?tq)" "queues ?tq ! k = state # rest"
      "queues tq' = (queues ?tq)[k := rest]" "size_m tq' = size_m ?tq - 1"
    using pop_logical_error_iff [of ?tq sample_heap 0] by blast
  from r(2) have "k = 0 \<or> k = 1"
    by auto
  with r(3) have "k = 1" "state = 1" "rest = []"
    by auto
  with r(1,4,5) have "pop sample_heap ?tq 0 = Inr (1, tq') \<and> queues tq' = [[], []] \<and> size_m tq' = 0"
    by simp
  with one show ?thesis
    by blast
qed

subsection \<open>Sequences of calls\<close>

lemma exec_consistent:
  assumes "exec h tq x = Inr (ev, tq')" "size_m tq = total_tasks tq"
  shows "size_m tq' = total_tasks tq'"
proof (cases x)
  case (Push p t)
  with assms(1) have "push h tq p t = Inr tq'"
    by (simp split: sum.splits)
  from push_Inr_D [OF this] assms(2) show ?thesis
    by (auto simp: total_tasks_def sum_length_append)
next
  case (Pop t)
  with assms(1) obtain p where "pop h tq t = Inr (p, tq')"
    by (auto split: sum.splits)
  from pop_Inr_D [OF this] obtain k rest and st :: ExecutionState where k: "k < length (queues tq)"
      "queues tq ! k = p # rest"
      "tq' = tq\<lparr> queues := (queues tq)[k := rest], size_m := size_m tq - 1,
               quota_m := (if has_quota st then quota_m tq + 1 else quota_m tq) \<rparr>"
    by blast
  from sum_length_remove [OF k(1,2)] assms(2) k(3) show ?thesis
    by (simp add: total_tasks_def)
qed

lemma run_consistent:
  "run h tq ops = Inr (evs, tq') \<Longrightarrow> size_m tq = total_tasks tq \<Longrightarrow>
   size_m tq' = total_tasks tq'"
proof (induction ops arbitrary: tq evs)
  case Nil
  then show ?case by simp
next
  case (Cons x xs)
  from Cons.prems(1) obtain ev tq1 evs1 where
      s: "exec h tq x = Inr (ev, tq1)" "run h tq1 xs = Inr (evs1, tq')"
    by (auto split: sum.splits)
  from exec_consistent [OF s(1) Cons.prems(2)] Cons.IH [OF s(2)] show ?case
    by simp
qed

lemma init_new:
  "init TaskQueue_new n = \<lparr> queues = replicate n [], size_m = 0, quota_m = 0 \<rparr>"
  by (simp add: init_def TaskQueue_new_def resize_def)

text \<open>
  Claim C5. After every sequence of \<open>push\<close> and successful \<open>pop\<close> calls on an initialised
  task queue, \<^verbatim>\<open>size()\<close> is the total number of tasks in the per-thread queues, and
  \<^verbatim>\<open>empty()\<close> is true exactly when that total is zero.
\<close>

theorem size_counts_tasks:
  assumes "run h (init TaskQueue_new n) ops = Inr (evs, tq)"
  shows "size_tq tq = total_tasks tq \<and> (empty_tq tq \<longleftrightarrow> total_tasks tq = 0)"
proof -
  have "size_m (init TaskQueue_new n) = total_tasks (init TaskQueue_new n)"
    by (simp add: init_new total_tasks_def)
  with assms have "size_m tq = total_tasks tq"
    by (rule run_consistent)
  then show ?thesis
    by (simp add: size_tq_def empty_tq_def)
qed

lemma exec_fifo:
  assumes "exec h tq x = Inr (ev, tq1)" "k < length (queues tq)"
  shows "length (queues tq1) = length (queues tq) \<and>
         queues tq ! k @ pushed_to k [ev] = popped_from k [ev] @ queues tq1 ! k"
proof (cases x)
  case (Push p t)
  with assms(1) have ev: "ev = Pushed p t" and "push h tq p t = Inr tq1"
    by (auto split: sum.splits)
  from push_Inr_D [OF this(2)] have "t < length (queues tq)"
      "queues tq1 = (queues tq)[t := queues tq ! t @ [p]]"
    by auto
  with assms(2) ev show ?thesis
    by (auto simp: nth_list_update)
next
  case (Pop t)
  with assms(1) obtain p j where ev: "ev = Popped p j" and j: "getAnyThreadWithTasks tq t = Inr j"
      and "pop h tq t = Inr (p, tq1)"
    by (auto split: sum.splits)
  from pop_Inr_D [OF this(3)] j obtain rest where "j < length (queues tq)"
      "queues tq ! j = p # rest" "queues tq1 = (queues tq)[j := rest]"
    by auto
  with assms(2) ev show ?thesis
    by (auto simp: nth_list_update)
qed

lemma run_fifo:
  "run h tq ops = Inr (evs, tq') \<Longrightarrow> k < length (queues tq) \<Longrightarrow>
   length (queues tq') = length (queues tq) \<and>
   queues tq ! k @ pushed_to k evs = popped_from k evs @ queues tq' ! k"
proof (induction ops arbitrary: tq evs)
  case Nil
  then show ?case by simp
next
  case (Cons x xs)
  from Cons.prems(1) obtain ev tq1 evs1 where
      s: "exec h tq x = Inr (ev, tq1)" "run h tq1 xs = Inr (evs1, tq')" and evs: "evs = ev # evs1"
    by (auto split: sum.splits)
  from exec_fifo [OF s(1) Cons.prems(2)] have
      one: "length (queues tq1) = length (queues tq)"
        "queues tq ! k @ pushed_to k [ev] = popped_from k [ev] @ queues tq1 ! k"
    by simp_all
  from Cons.IH [OF s(2)] one(1) Cons.prems(2) have
      rest: "length (queues tq') = length (queues tq)"
        "queues tq1 ! k @ pushed_to k evs1 = popped_from k evs1 @ queues tq' ! k"
    by simp_all
  have "queues tq ! k @ pushed_to k (ev # evs1) = popped_from k (ev # evs1) @ queues tq' ! k"
  proof -
    have split: "pushed_to k (ev # evs1) = pushed_to k [ev] @ pushed_to k evs1"
        "popped_from k (ev # evs1) = popped_from k [ev] @ popped_from k evs1"
      by (cases ev; simp)+
    have "queues tq ! k @ pushed_to k (ev # evs1) =
        (queues tq ! k @ pushed_to k [ev]) @ pushed_to k evs1"
      by (simp only: split append_assoc)
    also have "\<dots> = popped_from k [ev] @ (queues tq1 ! k @ pushed_to k evs1)"
      by (simp only: one(2) append_assoc)
    also have "\<dots> = popped_from k (ev # evs1) @ queues tq' ! k"
      by (simp only: rest(2) split append_assoc)
    finally show ?thesis .
  qed
  with rest(1) evs show ?case
    by simp
qed

lemma push_then_pop:
  assumes "t < length (queues tq)" "queues tq ! t = []" "deref h p = Some st"
  shows "\<exists>tq1 tq2. push h tq p t = Inr tq1 \<and> pop h tq1 t = Inr (p, tq2)"
proof -
  let ?tq1 = "tq\<lparr> queues := (queues tq)[t := queues tq ! t @ [p]], size_m := size_m tq + 1,
                   quota_m := (if has_quota st then quota_m tq + 1 else quota_m tq) \<rparr>"
  have pu: "push h tq p t = Inr ?tq1"
    by (rule push_ok [OF assms(1,3)])
  have q: "queues ?tq1 ! t = [p]" and len: "t < length (queues ?tq1)"
    using assms(1,2) by simp_all
  have "scan (queues ?tq1) (length (queues ?tq1)) t = Inr t"
  proof (cases "length (queues ?tq1)")
    case 0
    with len show ?thesis by simp
  next
    case (Suc m)
    with len q show ?thesis by simp
  qed
  then have "getAnyThreadWithTasks ?tq1 t = Inr t"
    by (simp add: getAnyThreadWithTasks_def)
  from pop_from [OF this len q assms(3)] pu show ?thesis
    by blast
qed

text \<open>
  Claim C6. Each per-thread queue is first-in first-out: after any sequence of calls, the
  tasks taken from queue \<open>k\<close>, in the order they were returned, followed by the tasks
  still in queue \<open>k\<close>, are the tasks pushed to queue \<open>k\<close> in the order they were pushed;
  so of two tasks pushed to the same queue the earlier one is returned first. In
  particular, a task pushed onto an empty queue is the one that \<open>pop\<close>, started at that
  thread's index, returns.
\<close>

theorem per_thread_fifo:
  "(run h (init TaskQueue_new n) ops = Inr (evs, tq) \<and> k < n \<longrightarrow>
      pushed_to k evs = popped_from k evs @ queues tq ! k) \<and>
   (t < length (queues tq0) \<and> queues tq0 ! t = [] \<and> deref h p \<noteq> None \<longrightarrow>
      (\<exists>tq1 tq2. push h tq0 p t = Inr tq1 \<and> pop h tq1 t = Inr (p, tq2)))"
proof (intro conjI impI)
  assume a: "run h (init TaskQueue_new n) ops = Inr (evs, tq) \<and> k < n"
  then have "k < length (queues (init TaskQueue_new n))"
    by (simp add: init_new)
  from run_fifo [OF a [THEN conjunct1] this] a show
    "pushed_to k evs = popped_from k evs @ queues tq ! k"
    by (simp add: init_new)
next
  assume b: "t < length (queues tq0) \<and> queues tq0 ! t = [] \<and> deref h p \<noteq> None"
  then obtain st where "deref h p = Some st"
    by auto
  with b show "\<exists>tq1 tq2. push h tq0 p t = Inr tq1 \<and> pop h tq1 t = Inr (p, tq2)"
    using push_then_pop by blast
qed

lemmas eval_defs = sample_heap_def init_def TaskQueue_new_def resize_def push_def pop_def
      getAnyThreadWithTasks_def deref_def nullptr_def ExecutionState_default_def

lemma sample_run:
  "run sample_heap (init TaskQueue_new 2) [Push 1 1, Push 2 1, Pop 0, Pop 1] =
     Inr ([Pushed 1 1, Pushed 2 1, Popped 1 1, Popped 2 1],
          \<lparr> queues = [[], []], size_m = 0, quota_m = 2 \<rparr>)"
  by code_simp

text \<open>Two tasks pushed to queue 1 come back in that order; a task pushed to the
  empty queue 0 comes back from it.\<close>

theorem per_thread_fifo_witness:
  "pushed_to 1 [Pushed 1 1, Pushed 2 1, Popped 1 1, Popped 2 1] =
     popped_from 1 [Pushed 1 1, Pushed 2 1, Popped 1 1, Popped 2 1] @ [[], []] ! 1 \<and>
   (\<exists>tq1 tq2. push sample_heap (init TaskQueue_new 2) 2 0 = Inr tq1 \<and>
               pop sample_heap tq1 0 = Inr (2, tq2))"
proof -
  note th = per_thread_fifo [of sample_heap 2 "[Push 1 1, Push 2 1, Pop 0, Pop 1]"
      "[Pushed 1 1, Pushed 2 1, Popped 1 1, Popped 2 1]"
      "\<lparr> queues = [[], []], size_m = 0, quota_m = 2 \<rparr>" 1 0 "init TaskQueue_new 2" 2]
  have "0 < length (queues (init TaskQueue_new 2)) \<and> queues (init TaskQueue_new 2) ! 0 = [] \<and>
      deref sample_heap 2 \<noteq> None"
    by (simp add: init_new sample_heap_def deref_def nullptr_def)
  with th sample_run show ?thesis
    by simp
qed

text \<open>The state after two pushes and two pops.\<close>

theorem size_counts_tasks_witness:
  "size_tq \<lparr> queues = [[], []], size_m = 0, quota_m = 2 \<rparr> =
     total_tasks \<lparr> queues = [[], []], size_m = 0, quota_m = 2 \<rparr> \<and>
   empty_tq \<lparr> queues = [[], []], size_m = 0, quota_m = 2 \<rparr>"
  using size_counts_tasks [OF sample_run] by (simp add: total_tasks_def)

text \<open>
  Claim C1 says that the quota count is the number of quota-bearing tasks queued, \<open>pop\<close>
  of such a task decreasing it by one. The code increments the quota count in \<open>pop\<close> as
  it does in \<open>push\<close>: after one quota-bearing task is pushed and popped again, no task
  is queued and the quota count is 2.
\<close>

theorem pop_increments_quota:
  "run sample_heap (init TaskQueue_new 1) [Push 1 0, Pop 0] =
     Inr ([Pushed 1 0, Popped 1 0], \<lparr> queues = [[]], size_m = 0, quota_m = 2 \<rparr>) \<and>
   quota \<lparr> queues = [[]], size_m = 0, quota_m = 2 \<rparr> = 2 \<and>
   queued_quota sample_heap \<lparr> queues = [[]], size_m = 0, quota_m = 2 \<rparr> = 0"
  by (simp add: eval_defs quota_def queued_quota_def)

section \<open>Properties of nodes\<close>

lemma deref_append_old:
  "deref h p \<noteq> None \<Longrightarrow> deref (h @ [v]) p = deref h p"
  by (auto simp: deref_def nullptr_def nth_append)

lemma deref_fresh:
  "deref h (Suc (length h)) = None" "deref (h @ [v]) (Suc (length h)) = Some v"
  by (simp_all add: deref_def nullptr_def)

lemma assign_fresh:
  "assign (h @ [v]) (Suc (length h)) f = Inr (h @ [f v])"
  by (simp add: assign_def deref_fresh store_def)

lemma Node_ctor_ok:
  assumes "procs processor' = Some ip"
  shows "Node_ctor procs h processor' processor_id =
     Inr (\<lparr> processor_node = processor', directEdges = [], backEdges = [],
            status = Idle,
            post_updated_input_ports = [], post_updated_output_ports = [],
            last_processor_status = NeedData, execution_state = Suc (length h),
            updated_input_ports = [], updated_output_ports = [] \<rparr>,
          h @ [ExecutionState_default\<lparr> processor := processor', processors_id := processor_id,
                 has_quota := hasQuota ip \<rparr>],
          [processor'])"
  using assms by (simp add: Node_ctor_def call_hasQuota_def make_unique_def assign_fresh)

lemma Node_move_fields:
  "processor_node (fst (Node_move other)) = processor_node other"
  "status (fst (Node_move other)) = status other"
  "execution_state (fst (Node_move other)) = execution_state other"
  "directEdges (fst (Node_move other)) = []"
  "backEdges (fst (Node_move other)) = []"
  "post_updated_input_ports (fst (Node_move other)) = []"
  "post_updated_output_ports (fst (Node_move other)) = []"
  "updated_input_ports (fst (Node_move other)) = []"
  "updated_output_ports (fst (Node_move other)) = []"
  "last_processor_status (fst (Node_move other)) = NeedData"
  "execution_state (snd (Node_move other)) = nullptr"
  by (simp_all add: Node_move_def)

lemma emplace_back_length:
  "length (elems (emplace_back g n)) = Suc (length (elems g))"
  by (simp add: emplace_back_def reallocate_def)

lemma emplace_back_last:
  "elems (emplace_back g n) ! length (elems g) = n"
  by (simp add: emplace_back_def reallocate_def nth_append)

lemma emplace_back_nth:
  "i < length (elems g) \<Longrightarrow>
   elems (emplace_back g n) ! i =
     (if length (elems g) < capacity g then elems g ! i else fst (Node_move (elems g ! i)))"
  by (simp add: emplace_back_def reallocate_def nth_append)

text \<open>
  Claim C2, amended. When the node collection grows, the existing entries keep their
  index, and each keeps its processor, status and execution state, so node identifiers
  remain stable references. Below capacity the existing nodes are unchanged; when the
  vector relocates them, each is the result of the move constructor, which carries over
  those three members only: the \<open>directEdges\<close>, \<open>backEdges\<close>, post-updated port lists
  and updated-port lists of a moved node are empty.
\<close>

theorem emplace_back_keeps_identity:
  "length (elems (emplace_back g n)) = Suc (length (elems g)) \<and>
   elems (emplace_back g n) ! length (elems g) = n \<and>
   (\<forall>i<length (elems g).
      processor_node (elems (emplace_back g n) ! i) = processor_node (elems g ! i) \<and>
      status (elems (emplace_back g n) ! i) = status (elems g ! i) \<and>
      execution_state (elems (emplace_back g n) ! i) = execution_state (elems g ! i) \<and>
      (length (elems g) < capacity g \<longrightarrow> elems (emplace_back g n) ! i = elems g ! i) \<and>
      (capacity g \<le> length (elems g) \<longrightarrow>
         elems (emplace_back g n) ! i = fst (Node_move (elems g ! i)))) \<and>
   directEdges (fst (Node_move other)) = [] \<and>
   backEdges (fst (Node_move other)) = [] \<and>
   post_updated_input_ports (fst (Node_move other)) = [] \<and>
   post_updated_output_ports (fst (Node_move other)) = [] \<and>
   updated_input_ports (fst (Node_move other)) = [] \<and>
   updated_output_ports (fst (Node_move other)) = []"
  by (simp add: emplace_back_length emplace_back_last emplace_back_nth Node_move_fields)

text \<open>Growing a full vector of one node, and a vector with room.\<close>

theorem emplace_back_keeps_identity_witness:
  "processor_node (elems (emplace_back \<lparr> elems = [sample_node], capacity = 1 \<rparr> other_node) ! 0) = 1 \<and>
   status (elems (emplace_back \<lparr> elems = [sample_node], capacity = 1 \<rparr> other_node) ! 0) = Preparing \<and>
   execution_state (elems (emplace_back \<lparr> elems = [sample_node], capacity = 1 \<rparr> other_node) ! 0) = 1 \<and>
   elems (emplace_back \<lparr> elems = [sample_node], capacity = 1 \<rparr> other_node) ! 0 =
     fst (Node_move sample_node) \<and>
   elems (emplace_back \<lparr> elems = [sample_node], capacity = 2 \<rparr> other_node) ! 0 = sample_node"
proof -
  let ?g = "\<lparr> elems = [sample_node], capacity = 1 \<rparr>"
  let ?g2 = "\<lparr> elems = [sample_node], capacity = 2 \<rparr>"
  have a: "0 < length (elems ?g)" "capacity ?g \<le> length (elems ?g)"
    and b: "0 < length (elems ?g2)" "length (elems ?g2) < capacity ?g2"
    by simp_all
  note t = emplace_back_keeps_identity [THEN conjunct2, THEN conjunct2, THEN conjunct1,
      rule_format]
  from t [of 0 ?g other_node, OF a(1)] a(2) t [of 0 ?g2 other_node, OF b(1)] b(2)
  have "processor_node (elems (emplace_back ?g other_node) ! 0) = processor_node sample_node"
    "status (elems (emplace_back ?g other_node) ! 0) = status sample_node"
    "execution_state (elems (emplace_back ?g other_node) ! 0) = execution_state sample_node"
    "elems (emplace_back ?g other_node) ! 0 = fst (Node_move sample_node)"
    "elems (emplace_back ?g2 other_node) ! 0 = sample_node"
    by (simp_all add: Node_move_fields)
  then show ?thesis
    by (simp add: sample_node_def)
qed

text \<open>
  Claim C2 as stated fails: the node \<open>sample_node\<close> has a forward edge, and neither the
  node moved from it nor its entry in the grown collection has it.
\<close>

theorem Node_move_drops_edges:
  "directEdges (fst (Node_move sample_node)) \<noteq> directEdges sample_node \<and>
   directEdges (elems (emplace_back \<lparr> elems = [sample_node], capacity = 1 \<rparr> other_node) ! 0)
     \<noteq> directEdges sample_node"
  by (simp add: Node_move_def sample_node_def emplace_back_def reallocate_def)

section \<open>Properties of the life of an execution state\<close>

lemma bindings_kept_refl: "bindings_kept h h"
  by (simp add: bindings_kept_def)

lemma bindings_kept_trans:
  "bindings_kept h1 h2 \<Longrightarrow> bindings_kept h2 h3 \<Longrightarrow> bindings_kept h1 h3"
  by (auto simp: bindings_kept_def)

lemma nodes_kept_refl: "nodes_kept g g"
  by (simp add: nodes_kept_def)

lemma nodes_kept_trans:
  "nodes_kept g1 g2 \<Longrightarrow> nodes_kept g2 g3 \<Longrightarrow> nodes_kept g1 g3"
  by (auto simp: nodes_kept_def)

lemma assign_kept:
  assumes "assign h p f = Inr h'"
    and "\<And>st. processor (f st) = processor st \<and> processors_id (f st) = processors_id st \<and>
              has_quota (f st) = has_quota st"
  shows "bindings_kept h h'"
proof -
  from assms(1) obtain st where h': "h' = h[p - 1 := f st]" and d: "deref h p = Some st"
    by (auto simp: assign_def store_def split: option.splits)
  from d have st: "h ! (p - 1) = st"
    by (simp add: deref_def split: if_splits)
  have "processor (h' ! i) = processor (h ! i) \<and> processors_id (h' ! i) = processors_id (h ! i) \<and>
      has_quota (h' ! i) = has_quota (h ! i)" if "i < length h" for i
  proof (cases "i = p - 1")
    case True
    with that h' have "h' ! i = f st"
      by simp
    with True st assms(2) [of st] show ?thesis
      by simp
  next
    case False
    with h' show ?thesis
      by simp
  qed
  moreover have "length h \<le> length h'"
    using h' by simp
  ultimately show ?thesis
    unfolding bindings_kept_def by blast
qed

lemma Node_ctor_Inr_D:
  assumes "Node_ctor procs h p i = Inr (n, h', calls)"
  shows "\<exists>ip. procs p = Some ip"
proof (cases "procs p")
  case None
  then have "call_hasQuota procs [] p = Inl Undefined_Behaviour"
    by (simp add: call_hasQuota_def)
  with assms show ?thesis
    by (simp add: Node_ctor_def make_unique_def split: sum.splits prod.splits)
next
  case (Some ip)
  then show ?thesis by simp
qed

lemma emplace_back_kept: "nodes_kept g (emplace_back g n)"
  by (simp add: nodes_kept_def emplace_back_length emplace_back_nth Node_move_fields)

lemma act_kept:
  assumes "act w a = Inr w'"
  shows "w_calls w' = w_calls w @ created [a] \<and> bindings_kept (w_heap w) (w_heap w') \<and>
         nodes_kept (w_graph w) (w_graph w')"
proof (cases a)
  case (Create_Node p)
  with assms obtain n h' calls where
      c: "Node_ctor (w_procs w) (w_heap w) p (length (elems (w_graph w))) = Inr (n, h', calls)"
      and w': "w' = w\<lparr> w_calls := w_calls w @ calls, w_heap := h',
                       w_graph := emplace_back (w_graph w) n \<rparr>"
    by (auto split: sum.splits)
  from Node_ctor_Inr_D [OF c] obtain ip where "w_procs w p = Some ip"
    by blast
  from Node_ctor_ok [of "w_procs w" p ip "w_heap w" "length (elems (w_graph w))"] this c
  have "calls = [p]" "\<exists>v. h' = w_heap w @ [v]"
    by simp_all
  then have "calls = [p]" "bindings_kept (w_heap w) h'"
    by (auto simp: bindings_kept_def nth_append)
  with w' Create_Node show ?thesis
    by (simp add: emplace_back_kept)
next
  case (Queue_Push es t)
  with assms show ?thesis
    by (auto simp: bindings_kept_refl nodes_kept_refl split: sum.splits)
next
  case (Queue_Pop t)
  with assms show ?thesis
    by (auto simp: bindings_kept_refl nodes_kept_refl split: sum.splits)
next
  case (Add_Job es j)
  with assms obtain h' where "addJob (w_heap w) es j = Inr h'" "w' = w\<lparr> w_heap := h' \<rparr>"
    by (auto split: sum.splits)
  moreover from this(1) have "bindings_kept (w_heap w) h'"
    unfolding addJob_def by (rule assign_kept) simp
  ultimately show ?thesis
    using Add_Job by (simp add: nodes_kept_refl)
next
  case (Run_Job es fault t)
  with assms obtain h' where "run_job (w_heap w) es fault t = Inr h'" "w' = w\<lparr> w_heap := h' \<rparr>"
    by (auto split: sum.splits)
  moreover from this(1) have "bindings_kept (w_heap w) h'"
    unfolding run_job_def by (rule assign_kept) simp
  ultimately show ?thesis
    using Run_Job by (simp add: nodes_kept_refl)
next
  case (Time_Preparation es t)
  with assms obtain h' where "record_preparation (w_heap w) es t = Inr h'"
      "w' = w\<lparr> w_heap := h' \<rparr>"
    by (auto split: sum.splits)
  moreover from this(1) have "bindings_kept (w_heap w) h'"
    unfolding record_preparation_def by (rule assign_kept) simp
  ultimately show ?thesis
    using Time_Preparation by (simp add: nodes_kept_refl)
next
  case (Processor_Changes p ip)
  with assms show ?thesis
    by (auto simp: bindings_kept_refl nodes_kept_refl)
qed

lemma created_Cons: "created (a # as) = created [a] @ created as"
  by (cases a) simp_all

lemma acts_kept:
  "acts w as = Inr w' \<Longrightarrow>
   w_calls w' = w_calls w @ created as \<and> bindings_kept (w_heap w) (w_heap w') \<and>
   nodes_kept (w_graph w) (w_graph w')"
proof (induction as arbitrary: w)
  case Nil
  then show ?case by (simp add: bindings_kept_refl nodes_kept_refl)
next
  case (Cons a as)
  then obtain w1 where s: "act w a = Inr w1" "acts w1 as = Inr w'"
    by (auto split: sum.splits)
  from act_kept [OF s(1)] have one: "w_calls w1 = w_calls w @ created [a]"
      "bindings_kept (w_heap w) (w_heap w1)" "nodes_kept (w_graph w) (w_graph w1)"
    by simp_all
  from Cons.IH [OF s(2)] have rest: "w_calls w' = w_calls w1 @ created as"
      "bindings_kept (w_heap w1) (w_heap w')" "nodes_kept (w_graph w1) (w_graph w')"
    by simp_all
  have "w_calls w' = w_calls w @ created (a # as)"
    unfolding rest(1) one(1) created_Cons [of a as] by simp
  moreover have "bindings_kept (w_heap w) (w_heap w')"
    using one(2) rest(2) by (rule bindings_kept_trans)
  moreover have "nodes_kept (w_graph w) (w_graph w')"
    using one(3) rest(3) by (rule nodes_kept_trans)
  ultimately show ?case
    by simp
qed

lemma bindings_kept_deref:
  assumes "bindings_kept h h'" "deref h p = Some st"
  shows "\<exists>st'. deref h' p = Some st' \<and> processor st' = processor st \<and>
           processors_id st' = processors_id st \<and> has_quota st' = has_quota st"
proof -
  from assms(2) have p: "p \<noteq> nullptr" "p \<le> length h" and st: "h ! (p - 1) = st"
    by (auto simp: deref_def split: if_splits)
  then have i: "p - 1 < length h"
    by (simp add: nullptr_def)
  from assms(1) have len: "length h \<le> length h'"
    by (simp add: bindings_kept_def)
  from assms(1) i have "processor (h' ! (p - 1)) = processor (h ! (p - 1)) \<and>
      processors_id (h' ! (p - 1)) = processors_id (h ! (p - 1)) \<and>
      has_quota (h' ! (p - 1)) = has_quota (h ! (p - 1))"
    unfolding bindings_kept_def by blast
  moreover have "deref h' p = Some (h' ! (p - 1))"
    using p len by (simp add: deref_def)
  ultimately show ?thesis
    using st by simp
qed

lemma sample_acts:
  "\<exists>w'. acts sample_world sample_actions = Inr w' \<and>
         (\<exists>ip. w_procs w' 1 = Some ip \<and> \<not> hasQuota ip)"
  by (simp add: sample_world_def sample_actions_def sample_heap_def sample_procs_def
      push_def pop_def getAnyThreadWithTasks_def init_def resize_def TaskQueue_new_def
      addJob_def run_job_def assign_def store_def deref_def nullptr_def
      Node_ctor_def call_hasQuota_def make_unique_def ExecutionState_default_def Let_def)

text \<open>
  Claim C7. For every processor and node id, a newly constructed node has status
  \<open>Idle\<close>; its execution state is created with the node (a fresh object, the existing
  ones untouched) and is bound to that processor and node id, with the quota flag set to
  the answer of the processor's \<^verbatim>\<open>hasQuota\<close>, which the constructor calls exactly once
  (the log of its calls is that one call). It is never queried again afterwards:
  whatever happens next, the only \<^verbatim>\<open>hasQuota\<close> calls added to the log are those of the
  construction of further nodes, and the execution state of the node keeps its
  processor, node id and quota flag, also when the processor's own answer changes and
  when the node is relocated.
\<close>

theorem Node_ctor_binds:
  assumes "procs processor' = Some ip"
  shows "\<exists>node h'. Node_ctor procs h processor' processor_id = Inr (node, h', [processor']) \<and>
           status node = Idle \<and> processor_node node = processor' \<and>
           deref h (execution_state node) = None \<and>
           deref h' (execution_state node) =
             Some (ExecutionState_default\<lparr> processor := processor', processors_id := processor_id,
                     has_quota := hasQuota ip \<rparr>) \<and>
           (\<forall>p. deref h p \<noteq> None \<longrightarrow> deref h' p = deref h p) \<and>
           execution_state (fst (Node_move node)) = execution_state node \<and>
           (\<forall>w as w'. w_heap w = h' \<and> acts w as = Inr w' \<longrightarrow>
              w_calls w' = w_calls w @ created as \<and>
              (\<exists>st. deref (w_heap w') (execution_state node) = Some st \<and>
                    processor st = processor' \<and> processors_id st = processor_id \<and>
                    has_quota st = hasQuota ip) \<and>
              (\<forall>i<length (elems (w_graph w)). elems (w_graph w) ! i = node \<longrightarrow>
                 processor_node (elems (w_graph w') ! i) = processor' \<and>
                 execution_state (elems (w_graph w') ! i) = execution_state node))"
proof -
  let ?node = "\<lparr> processor_node = processor', directEdges = [], backEdges = [],
            status = Idle,
            post_updated_input_ports = [], post_updated_output_ports = [],
            last_processor_status = NeedData, execution_state = Suc (length h),
            updated_input_ports = [], updated_output_ports = [] \<rparr>"
  let ?st = "ExecutionState_default\<lparr> processor := processor', processors_id := processor_id,
                 has_quota := hasQuota ip \<rparr>"
  let ?h' = "h @ [?st]"
  have ctor: "Node_ctor procs h processor' processor_id = Inr (?node, ?h', [processor'])"
    using assms by (rule Node_ctor_ok)
  have fresh: "deref h (execution_state ?node) = None"
      "deref ?h' (execution_state ?node) = Some ?st"
    by (simp_all add: deref_fresh)
  have old: "\<forall>p. deref h p \<noteq> None \<longrightarrow> deref ?h' p = deref h p"
    by (simp add: deref_append_old)
  have later: "w_calls w' = w_calls w @ created as \<and>
      (\<exists>st. deref (w_heap w') (execution_state ?node) = Some st \<and>
            processor st = processor' \<and> processors_id st = processor_id \<and>
            has_quota st = hasQuota ip) \<and>
      (\<forall>i<length (elems (w_graph w)). elems (w_graph w) ! i = ?node \<longrightarrow>
         processor_node (elems (w_graph w') ! i) = processor' \<and>
         execution_state (elems (w_graph w') ! i) = execution_state ?node)"
    if w: "w_heap w = ?h'" "acts w as = Inr w'" for w as w'
  proof -
    from acts_kept [OF w(2)] have k: "w_calls w' = w_calls w @ created as"
        "bindings_kept (w_heap w) (w_heap w')" "nodes_kept (w_graph w) (w_graph w')"
      by simp_all
    have "deref (w_heap w) (execution_state ?node) = Some ?st"
      using fresh(2) w(1) by simp
    from bindings_kept_deref [OF k(2) this]
    have "\<exists>st. deref (w_heap w') (execution_state ?node) = Some st \<and>
            processor st = processor' \<and> processors_id st = processor_id \<and>
            has_quota st = hasQuota ip"
      by simp
    moreover have "processor_node (elems (w_graph w') ! i) = processor' \<and>
         execution_state (elems (w_graph w') ! i) = execution_state ?node"
      if "i < length (elems (w_graph w))" "elems (w_graph w) ! i = ?node" for i
      using k(3) that unfolding nodes_kept_def by auto
    ultimately show ?thesis
      using k(1) by blast
  qed
  have moved: "execution_state (fst (Node_move ?node)) = execution_state ?node"
    by (simp add: Node_move_def)
  from later have "\<forall>w as w'. w_heap w = ?h' \<and> acts w as = Inr w' \<longrightarrow>
      w_calls w' = w_calls w @ created as \<and>
      (\<exists>st. deref (w_heap w') (execution_state ?node) = Some st \<and>
            processor st = processor' \<and> processors_id st = processor_id \<and>
            has_quota st = hasQuota ip) \<and>
      (\<forall>i<length (elems (w_graph w)). elems (w_graph w) ! i = ?node \<longrightarrow>
         processor_node (elems (w_graph w') ! i) = processor' \<and>
         execution_state (elems (w_graph w') ! i) = execution_state ?node)"
    by blast
  with ctor fresh old moved show ?thesis
    by (intro exI [of _ ?node] exI [of _ ?h']) simp
qed

text \<open>The node of the processor at address 1: after the sample actions its flag is
  still set, although the processor now answers no, and the log holds the call of its
  construction and that of the node created later.\<close>

theorem Node_ctor_binds_witness:
  "\<exists>node h'. Node_ctor sample_procs sample_heap 1 0 = Inr (node, h', [1]) \<and>
     status node = Idle \<and> processor_node node = 1 \<and>
     deref h' (execution_state node) =
       Some (ExecutionState_default\<lparr> processor := 1, processors_id := 0, has_quota := True \<rparr>) \<and>
     (\<exists>w'. acts sample_world sample_actions = Inr w' \<and> w_calls w' = [1, 2] \<and>
        (\<exists>st. deref (w_heap w') (execution_state node) = Some st \<and> has_quota st) \<and>
        (\<exists>ip. w_procs w' 1 = Some ip \<and> \<not> hasQuota ip))"
proof -
  let ?ip = "\<lparr> hasQuota = True, inputs = [], outputs = [Some (2, 0)] \<rparr>"
  have p: "sample_procs 1 = Some ?ip"
    by (simp add: sample_procs_def)
  from Node_ctor_binds [of sample_procs 1 ?ip sample_heap 0] p obtain node h' where
      n: "Node_ctor sample_procs sample_heap 1 0 = Inr (node, h', [1])"
        "status node = Idle" "processor_node node = 1"
        "deref h' (execution_state node) =
           Some (ExecutionState_default\<lparr> processor := 1, processors_id := 0,
                   has_quota := hasQuota ?ip \<rparr>)"
      and later: "\<forall>w as w'. w_heap w = h' \<and> acts w as = Inr w' \<longrightarrow>
        w_calls w' = w_calls w @ created as \<and>
        (\<exists>st. deref (w_heap w') (execution_state node) = Some st \<and>
              processor st = 1 \<and> processors_id st = 0 \<and> has_quota st = hasQuota ?ip)"
    by blast
  from Node_ctor_ok [of sample_procs 1 ?ip sample_heap 0] p n(1) have hw: "w_heap sample_world = h'"
    by (simp add: sample_world_def)
  obtain w' where w': "acts sample_world sample_actions = Inr w'"
      "\<exists>ip. w_procs w' 1 = Some ip \<and> \<not> hasQuota ip"
    using sample_acts by blast
  from later hw w'(1) have "w_calls w' = w_calls sample_world @ created sample_actions \<and>
      (\<exists>st. deref (w_heap w') (execution_state node) = Some st \<and>
            processor st = 1 \<and> processors_id st = 0 \<and> has_quota st = hasQuota ?ip)"
    by blast
  then have "w_calls w' = w_calls sample_world @ created sample_actions"
      "\<exists>st. deref (w_heap w') (execution_state node) = Some st \<and> has_quota st"
    by auto
  then have "w_calls w' = [1, 2]"
      "\<exists>st. deref (w_heap w') (execution_state node) = Some st \<and> has_quota st"
    by (simp_all add: sample_world_def sample_actions_def)
  with n w' show ?thesis
    by auto
qed

section \<open>Properties of graph construction\<close>

lemma resolve_cases:
  "resolve pmap port = Inl Structural_Error \<and> \<not> resolvable pmap port \<or>
   (\<exists>r. resolve pmap port = Inr r) \<and> resolvable pmap port"
  by (auto simp: resolve_def resolvable_def split: option.splits)

lemma port_edges_ok:
  "list_all (resolvable pmap) ports \<Longrightarrow> \<exists>es. port_edges pl pmap b j ports = Inr es"
proof (induction ports arbitrary: j)
  case Nil
  then show ?case by simp
next
  case (Cons port ports)
  then obtain r where "resolve pmap port = Inr r"
    using resolve_cases [of pmap port] by auto
  moreover obtain es where "port_edges pl pmap b (Suc j) ports = Inr es"
    using Cons by auto
  ultimately show ?case
    by (cases r) simp
qed

lemma port_edges_fail:
  "\<not> list_all (resolvable pmap) ports \<Longrightarrow> port_edges pl pmap b j ports = Inl Structural_Error"
proof (induction ports arbitrary: j)
  case Nil
  then show ?case by simp
next
  case (Cons port ports)
  show ?case
  proof (cases "resolvable pmap port")
    case True
    then obtain r where r: "resolve pmap port = Inr r"
      using resolve_cases [of pmap port] by auto
    from True Cons.prems have "\<not> list_all (resolvable pmap) ports"
      by simp
    from Cons.IH [OF this, of "Suc j"] r show ?thesis
      by (cases r) simp
  next
    case False
    then have "resolve pmap port = Inl Structural_Error"
      using resolve_cases [of pmap port] by auto
    then show ?thesis by simp
  qed
qed

lemma node_edges_ok:
  assumes "node < length nodes" "procs (processor_node (nodes ! node)) \<noteq> None"
    "node_good procs pmap (processor_node (nodes ! node))"
  shows "\<exists>nodes'. node_edges place procs pmap nodes node = Inr nodes' \<and>
           map processor_node nodes' = map processor_node nodes"
proof -
  from assms(2) obtain ip where ip: "procs (processor_node (nodes ! node)) = Some ip"
    by auto
  with assms(3) have "list_all (resolvable pmap) (inputs ip)" "list_all (resolvable pmap) (outputs ip)"
    by (simp_all add: node_good_def)
  then obtain bs ds where
      "port_edges (place node True) pmap True 0 (inputs ip) = Inr bs"
      "port_edges (place node False) pmap False 0 (outputs ip) = Inr ds"
    using port_edges_ok by blast
  with assms(1) ip show ?thesis
    by (simp add: node_edges_def map_update list_update_same_conv)
qed

lemma node_edges_fail:
  assumes "node < length nodes" "procs (processor_node (nodes ! node)) \<noteq> None"
    "\<not> node_good procs pmap (processor_node (nodes ! node))"
  shows "node_edges place procs pmap nodes node = Inl Structural_Error"
proof -
  from assms(2) obtain ip where ip: "procs (processor_node (nodes ! node)) = Some ip"
    by auto
  show ?thesis
  proof (cases "list_all (resolvable pmap) (inputs ip)")
    case True
    then obtain bs where bs: "port_edges (place node True) pmap True 0 (inputs ip) = Inr bs"
      using port_edges_ok by blast
    from True assms(3) ip have "\<not> list_all (resolvable pmap) (outputs ip)"
      by (simp add: node_good_def)
    from port_edges_fail [OF this] bs assms(1) ip show ?thesis
      by (simp add: node_edges_def)
  next
    case False
    from port_edges_fail [OF this] assms(1) ip show ?thesis
      by (simp add: node_edges_def)
  qed
qed

lemma all_edges_ok:
  "\<forall>i\<in>set ids. i < length nodes \<Longrightarrow>
   \<forall>i<length nodes. procs (processor_node (nodes ! i)) \<noteq> None \<Longrightarrow>
   \<forall>i\<in>set ids. node_good procs pmap (processor_node (nodes ! i)) \<Longrightarrow>
   \<exists>nodes'. all_edges place procs pmap nodes ids = Inr nodes' \<and>
      map processor_node nodes' = map processor_node nodes"
proof (induction ids arbitrary: nodes)
  case Nil
  then show ?case by simp
next
  case (Cons i ids)
  from Cons.prems have i: "i < length nodes" "procs (processor_node (nodes ! i)) \<noteq> None"
      "node_good procs pmap (processor_node (nodes ! i))"
    by simp_all
  from node_edges_ok [OF i, of place] obtain nodes1 where
      n1: "node_edges place procs pmap nodes i = Inr nodes1"
        "map processor_node nodes1 = map processor_node nodes"
    by blast
  from n1(2) have len: "length nodes1 = length nodes"
    by (rule map_eq_imp_length_eq)
  have same: "processor_node (nodes1 ! k) = processor_node (nodes ! k)" if "k < length nodes" for k
    using n1(2) that len by (metis nth_map)
  have "\<exists>nodes'. all_edges place procs pmap nodes1 ids = Inr nodes' \<and>
      map processor_node nodes' = map processor_node nodes1"
  proof (rule Cons.IH)
    show "\<forall>i\<in>set ids. i < length nodes1"
      using Cons.prems(1) len by simp
    show "\<forall>i<length nodes1. procs (processor_node (nodes1 ! i)) \<noteq> None"
      using Cons.prems(2) len same by simp
    show "\<forall>i\<in>set ids. node_good procs pmap (processor_node (nodes1 ! i))"
      using Cons.prems(1,3) same by simp
  qed
  with n1 show ?case
    by simp
qed

lemma all_edges_fail:
  "\<forall>i\<in>set ids. i < length nodes \<Longrightarrow>
   \<forall>i<length nodes. procs (processor_node (nodes ! i)) \<noteq> None \<Longrightarrow>
   \<exists>i\<in>set ids. \<not> node_good procs pmap (processor_node (nodes ! i)) \<Longrightarrow>
   all_edges place procs pmap nodes ids = Inl Structural_Error"
proof (induction ids arbitrary: nodes)
  case Nil
  then show ?case by simp
next
  case (Cons i ids)
  from Cons.prems have i: "i < length nodes" "procs (processor_node (nodes ! i)) \<noteq> None"
    by simp_all
  show ?case
  proof (cases "node_good procs pmap (processor_node (nodes ! i))")
    case False
    from node_edges_fail [OF i False, of place] show ?thesis
      by simp
  next
    case True
    from node_edges_ok [OF i True, of place] obtain nodes1 where
        n1: "node_edges place procs pmap nodes i = Inr nodes1"
          "map processor_node nodes1 = map processor_node nodes"
      by blast
    from n1(2) have len: "length nodes1 = length nodes"
      by (rule map_eq_imp_length_eq)
    have same: "processor_node (nodes1 ! k) = processor_node (nodes ! k)" if "k < length nodes" for k
      using n1(2) that len by (metis nth_map)
    have "all_edges place procs pmap nodes1 ids = Inl Structural_Error"
    proof (rule Cons.IH)
      show "\<forall>i\<in>set ids. i < length nodes1"
        using Cons.prems(1) len by simp
      show "\<forall>i<length nodes1. procs (processor_node (nodes1 ! i)) \<noteq> None"
        using Cons.prems(2) len same by simp
      show "\<exists>i\<in>set ids. \<not> node_good procs pmap (processor_node (nodes1 ! i))"
        using Cons.prems(1,3) True same by auto
    qed
    with n1 show ?thesis
      by simp
  qed
qed

lemma emplace_back_processors:
  "map processor_node (elems (emplace_back g n)) = map processor_node (elems g) @ [processor_node n]"
  by (simp add: emplace_back_def reallocate_def Node_move_fields comp_def)

lemma create_nodes_ok:
  "\<forall>p\<in>set ps. procs p \<noteq> None \<Longrightarrow>
   \<exists>g' pmap' h'. create_nodes procs h g pmap ps = Inr (g', pmap', h') \<and>
      map processor_node (elems g') = map processor_node (elems g) @ ps \<and>
      dom pmap' = dom pmap \<union> set ps"
proof (induction ps arbitrary: h g pmap)
  case Nil
  then show ?case by simp
next
  case (Cons p ps)
  from Cons.prems obtain ip where ip: "procs p = Some ip"
    by auto
  let ?n = "\<lparr> processor_node = p, directEdges = [], backEdges = [],
            status = Idle,
            post_updated_input_ports = [], post_updated_output_ports = [],
            last_processor_status = NeedData, execution_state = Suc (length h),
            updated_input_ports = [], updated_output_ports = [] \<rparr>"
  let ?h = "h @ [ExecutionState_default\<lparr> processor := p, processors_id := length (elems g),
                 has_quota := hasQuota ip \<rparr>]"
  have ctor: "Node_ctor procs h p (length (elems g)) = Inr (?n, ?h, [p])"
    using ip by (rule Node_ctor_ok)
  from Cons.prems have "\<forall>p\<in>set ps. procs p \<noteq> None"
    by simp
  from Cons.IH [OF this, of ?h "emplace_back g ?n" "pmap(p \<mapsto> length (elems g))"]
  obtain g' pmap' h' where
      r: "create_nodes procs ?h (emplace_back g ?n) (pmap(p \<mapsto> length (elems g))) ps =
            Inr (g', pmap', h')"
        "map processor_node (elems g') = map processor_node (elems (emplace_back g ?n)) @ ps"
        "dom pmap' = dom (pmap(p \<mapsto> length (elems g))) \<union> set ps"
    by blast
  from r(2) have "map processor_node (elems g') = map processor_node (elems g) @ p # ps"
    by (simp add: emplace_back_processors)
  moreover from r(3) have "dom pmap' = dom pmap \<union> set (p # ps)"
    by auto
  ultimately show ?case
    using ctor r(1) by simp
qed

lemma resolvable_connected:
  "dom pmap = set ps \<Longrightarrow> resolvable pmap port = port_connected ps port"
  by (auto simp: resolvable_def port_connected_def split: option.splits)

lemma node_good_connected:
  assumes "dom pmap = set ps"
  shows "list_all (node_good procs pmap) qs = 
     list_all (\<lambda>p. case procs p of
                     None \<Rightarrow> False
                   | Some ip \<Rightarrow> list_all (port_connected ps) (inputs ip) \<and>
                               list_all (port_connected ps) (outputs ip)) qs"
proof -
  have "node_good procs pmap p =
      (case procs p of
         None \<Rightarrow> False
       | Some ip \<Rightarrow> list_all (port_connected ps) (inputs ip) \<and>
                   list_all (port_connected ps) (outputs ip))" for p
  proof -
    have "resolvable pmap = port_connected ps"
      using resolvable_connected [OF assms] by (intro ext)
    then show ?thesis
      by (cases "procs p") (simp_all add: node_good_def)
  qed
  then have "node_good procs pmap =
      (\<lambda>p. case procs p of
         None \<Rightarrow> False
       | Some ip \<Rightarrow> list_all (port_connected ps) (inputs ip) \<and>
                   list_all (port_connected ps) (outputs ip))"
    by (intro ext)
  then show ?thesis
    by (simp only:)
qed

lemma buildGraph_cases:
  assumes "\<forall>p\<in>set ps. procs p \<noteq> None"
  shows "(\<not> fully_connected procs ps \<longrightarrow> buildGraph place procs h ps = Inl Structural_Error) \<and>
         (fully_connected procs ps \<longrightarrow>
            (\<exists>g pmap h'. buildGraph place procs h ps = Inr (g, pmap, h') \<and>
               map processor_node (elems g) = ps \<and> dom pmap = set ps))"
proof -
  from create_nodes_ok [OF assms, of h "\<lparr> elems = [], capacity = 0 \<rparr>" Map.empty]
  obtain g pmap h' where
      c: "create_nodes procs h \<lparr> elems = [], capacity = 0 \<rparr> Map.empty ps = Inr (g, pmap, h')"
        "map processor_node (elems g) = ps" "dom pmap = set ps"
    by auto
  let ?nodes = "elems g"
  have len: "length ?nodes = length ps"
    using c(2) by (metis length_map)
  have nth: "processor_node (?nodes ! i) = ps ! i" if "i < length ps" for i
    using c(2) that len by (metis nth_map)
  have ids: "\<forall>i\<in>set [0..<length ?nodes]. i < length ?nodes"
    by simp
  have valid: "\<forall>i<length ?nodes. procs (processor_node (?nodes ! i)) \<noteq> None"
    using assms nth len by simp
  have fc: "fully_connected procs ps = list_all (node_good procs pmap) ps"
    unfolding fully_connected_def node_good_connected [OF c(3)] ..
  have good: "(\<forall>i\<in>set [0..<length ?nodes]. node_good procs pmap (processor_node (?nodes ! i)))
      = fully_connected procs ps"
    using nth len by (auto simp: fc list_all_length)
  show ?thesis
  proof (cases "fully_connected procs ps")
    case True
    then have "\<forall>i\<in>set [0..<length ?nodes]. node_good procs pmap (processor_node (?nodes ! i))"
      using good by simp
    from all_edges_ok [OF ids valid this, of place] obtain nodes' where
        "all_edges place procs pmap ?nodes [0..<length ?nodes] = Inr nodes'"
        "map processor_node nodes' = map processor_node ?nodes"
      by blast
    with c True show ?thesis
      by (simp add: buildGraph_def)
  next
    case False
    then have "\<exists>i\<in>set [0..<length ?nodes]. \<not> node_good procs pmap (processor_node (?nodes ! i))"
      using good by blast
    from all_edges_fail [OF ids valid this, of place] c(1) False show ?thesis
      by (simp add: buildGraph_def)
  qed
qed

text \<open>
  Claim C8. Constructing the executor from a processor set fails with a structural
  error whenever some port has no connected peer or some connected peer is not in the
  supplied set; the failure carries no executor, and no worker thread exists. For a
  fully connected set the construction succeeds, with one node per processor and no
  worker thread yet.
\<close>

theorem constructor_checks_connectivity:
  assumes "\<forall>p\<in>set ps. procs p \<noteq> None"
  shows "(\<not> fully_connected procs ps \<longrightarrow>
            PipelineExecutor_ctor place procs h ps = Inl Structural_Error) \<and>
         (fully_connected procs ps \<longrightarrow>
            (\<exists>ex h'. PipelineExecutor_ctor place procs h ps = Inr (ex, h') \<and>
               processors ex = ps \<and> map processor_node (elems (graph ex)) = ps \<and>
               dom (processors_map ex) = set ps \<and>
               executor_contexts ex = [] \<and> threads_queue ex = []))"
proof (cases "fully_connected procs ps")
  case True
  with buildGraph_cases [OF assms, of place h] obtain g pmap h' where
      "buildGraph place procs h ps = Inr (g, pmap, h')"
      "map processor_node (elems g) = ps" "dom pmap = set ps"
    by blast
  with True show ?thesis
    by (simp add: PipelineExecutor_ctor_def)
next
  case False
  with buildGraph_cases [OF assms, of place h] show ?thesis
    by (simp add: PipelineExecutor_ctor_def)
qed

text \<open>The set with the dangling processor is refused, the connected pair is accepted.\<close>

theorem constructor_checks_connectivity_witness:
  "PipelineExecutor_ctor (\<lambda>node b j. (nullptr, nullptr)) sample_procs [] [1, 2, 3] =
     Inl Structural_Error \<and>
   (\<exists>ex h'. PipelineExecutor_ctor (\<lambda>node b j. (nullptr, nullptr)) sample_procs [] [1, 2] =
      Inr (ex, h') \<and> processors ex = [1, 2] \<and> executor_contexts ex = [])"
proof -
  have v: "\<forall>p\<in>set [1, 2, 3]. sample_procs p \<noteq> None" "\<forall>p\<in>set [1, 2]. sample_procs p \<noteq> None"
    by (simp_all add: sample_procs_def)
  have "\<not> fully_connected sample_procs [1, 2, 3]" "fully_connected sample_procs [1, 2]"
    by (simp_all add: fully_connected_def sample_procs_def port_connected_def)
  with constructor_checks_connectivity [OF v(1), of "\<lambda>node b j. (nullptr, nullptr)" "[]"]
    constructor_checks_connectivity [OF v(2), of "\<lambda>node b j. (nullptr, nullptr)" "[]"]
  show ?thesis
    by blast
qed

section \<open>Properties of cancellation\<close>

lemma wake_parked_length:
  "length (wake_parked parked i cs) = length cs"
  by (induction cs arbitrary: i) simp_all

lemma wake_parked_none:
  "wake_parked [] i cs = cs"
  by (induction cs arbitrary: i) simp_all

lemma wake_parked_nth:
  "k < length cs \<Longrightarrow>
   wake_parked parked i cs ! k =
     (if i + k \<in> set parked then (cs ! k)\<lparr> wake_flag := True \<rparr> else cs ! k)"
proof (induction cs arbitrary: i k)
  case Nil
  then show ?case by simp
next
  case (Cons c cs)
  show ?case
  proof (cases k)
    case 0
    then show ?thesis by simp
  next
    case (Suc k')
    with Cons.prems have "k' < length cs" by simp
    from Cons.IH [OF this, of "Suc i"] Suc show ?thesis by simp
  qed
qed

lemma cancel_cancel: "cancel (cancel ex) = cancel ex"
  by (simp add: cancel_def wake_parked_none)

lemma cancel_funpow: "(cancel ^^ Suc n) ex = cancel ex"
proof (induction n)
  case 0
  then show ?case by simp
next
  case (Suc n)
  have "(cancel ^^ Suc (Suc n)) ex = cancel ((cancel ^^ Suc n) ex)"
    by simp
  also have "\<dots> = cancel (cancel ex)"
    by (simp only: Suc)
  finally show ?case
    by (simp only: cancel_cancel)
qed

text \<open>
  Claim C10. \<^verbatim>\<open>cancel()\<close> is idempotent: called on any state of the executor any number
  of times, it leaves the state that one call leaves. It sets the cancellation flag and
  wakes every parked thread (the registry of parked threads is empty afterwards and the
  wake flag of each thread that was parked is set); a second call changes nothing.
\<close>

theorem cancel_idempotent:
  "cancel (cancel ex) = cancel ex \<and> (cancel ^^ Suc n) ex = cancel ex \<and>
   cancelled (cancel ex) \<and> threads_queue (cancel ex) = [] \<and>
   length (executor_contexts (cancel ex)) = length (executor_contexts ex) \<and>
   (\<forall>i\<in>set (threads_queue ex). i < length (executor_contexts ex) \<longrightarrow>
      wake_flag (executor_contexts (cancel ex) ! i))"
proof -
  have "wake_flag (executor_contexts (cancel ex) ! i)"
    if "i \<in> set (threads_queue ex)" "i < length (executor_contexts ex)" for i
    using that wake_parked_nth [of i "executor_contexts ex" "threads_queue ex" 0]
    by (simp add: cancel_def)
  moreover have "cancelled (cancel ex)" "threads_queue (cancel ex) = []"
      "length (executor_contexts (cancel ex)) = length (executor_contexts ex)"
    by (simp_all add: cancel_def wake_parked_length)
  ultimately show ?thesis
    using cancel_cancel cancel_funpow by blast
qed

text \<open>Three calls on an executor with two parked threads.\<close>

theorem cancel_idempotent_witness:
  "cancel (cancel sample_executor) = cancel sample_executor \<and>
   (cancel ^^ 3) sample_executor = cancel sample_executor \<and>
   cancelled (cancel sample_executor) \<and>
   wake_flag (executor_contexts (cancel sample_executor) ! 1) \<and>
   wake_flag (executor_contexts (cancel sample_executor) ! 2) \<and>
   \<not> wake_flag (executor_contexts (cancel sample_executor) ! 0)"
proof -
  have a: "1 \<in> set (threads_queue sample_executor)" "2 \<in> set (threads_queue sample_executor)"
      "1 < length (executor_contexts sample_executor)"
      "2 < length (executor_contexts sample_executor)"
    by (simp_all add: sample_executor_def)
  have b: "\<not> wake_flag (executor_contexts (cancel sample_executor) ! 0)"
    by (simp add: cancel_def sample_executor_def)
  from cancel_idempotent [of sample_executor 2] a b show ?thesis
    by (simp add: numeral_3_eq_3)
qed

end
